theory Spec2Isabelle
  imports Main "HOL-Library.Sublist" "HOL-Library.AList"
begin

section \<open>Paths: the POSIX flavour of the \<open>path\<close> module used by \<open>extension.js\<close>\<close>

text \<open>
  \<open>extension.js\<close> calls \<open>path.join\<close>, \<open>path.relative\<close>, \<open>path.dirname\<close> and
  \<open>path.basename\<close> of the JavaScript runtime. They are library functions, not code of
  the extension; they are written out here for POSIX paths (separator \<open>/\<close>), segment
  by segment: a path is split at every \<open>/\<close>, the segments \<open>.\<close> and the empty segment
  are dropped, a segment \<open>..\<close> removes the segment before it.
\<close>

definition slash :: char where
  "slash = CHR ''/''"

fun split_path :: "string \<Rightarrow> string list" where
  "split_path [] = [[]]"
| "split_path (c # cs) =
     (if c = slash then [] # split_path cs
      else (case split_path cs of [] \<Rightarrow> [[c]] | s # ss \<Rightarrow> (c # s) # ss))"

fun join_segs :: "string list \<Rightarrow> string" where
  "join_segs [] = []"
| "join_segs [s] = s"
| "join_segs (s # t # ss) = s @ slash # join_segs (t # ss)"

definition norm_step :: "bool \<Rightarrow> string list \<Rightarrow> string \<Rightarrow> string list" where
  "norm_step allowAboveRoot res seg =
     (if seg = [] \<or> seg = ''.'' then res
      else if seg = ''..'' then
        (if res \<noteq> [] \<and> last res \<noteq> ''..'' then butlast res
         else if allowAboveRoot then res @ [''..''] else res)
      else res @ [seg])"

definition normalizeString :: "bool \<Rightarrow> string list \<Rightarrow> string list" where
  "normalizeString allowAboveRoot segs = foldl (norm_step allowAboveRoot) [] segs"

definition isAbsolute :: "string \<Rightarrow> bool" where
  "isAbsolute p = (case p of [] \<Rightarrow> False | c # _ \<Rightarrow> c = slash)"

definition path_normalize :: "string \<Rightarrow> string" where
  "path_normalize p =
     (if p = [] then ''.''
      else
        let trailingSeparator = (last p = slash);
            s = join_segs (normalizeString (\<not> isAbsolute p) (split_path p))
        in if s = [] then
             (if isAbsolute p then ''/'' else if trailingSeparator then ''./'' else ''.'')
           else (if isAbsolute p then ''/'' else '''') @ s
                @ (if trailingSeparator then ''/'' else ''''))"

definition path_join :: "string list \<Rightarrow> string" where
  "path_join args =
     (let parts = filter (\<lambda>a. a \<noteq> []) args
      in if parts = [] then ''.'' else path_normalize (join_segs parts))"

text \<open>
  \<open>path.resolve\<close> of one argument, against the working directory of the process (an
  absolute path): the segments of the absolute, normalised path.
\<close>

definition resolve_segs :: "string \<Rightarrow> string \<Rightarrow> string list" where
  "resolve_segs cwd p =
     normalizeString False (if isAbsolute p then split_path p else split_path cwd @ split_path p)"

definition path_resolve :: "string \<Rightarrow> string \<Rightarrow> string" where
  "path_resolve cwd p = slash # join_segs (resolve_segs cwd p)"

definition path_relative :: "string \<Rightarrow> string \<Rightarrow> string \<Rightarrow> string" where
  "path_relative cwd from to =
     (if from = to then []
      else
        let f = resolve_segs cwd from; t = resolve_segs cwd to
        in if f = t then []
           else
             let k = length (longest_common_prefix f t)
             in join_segs (replicate (length f - k) ''..'' @ drop k t))"

definition path_dirname :: "string \<Rightarrow> string" where
  "path_dirname p =
     (if p = [] then ''.''
      else
        let hasRoot = (hd p = slash);
            r = dropWhile (\<lambda>c. c \<noteq> slash) (dropWhile (\<lambda>c. c = slash) (rev (tl p)))
        in (case r of
              [] \<Rightarrow> if hasRoot then ''/'' else ''.''
            | _ # rest \<Rightarrow> if hasRoot \<and> rest = [] then ''//'' else hd p # rev rest))"

definition path_basename :: "string \<Rightarrow> string" where
  "path_basename p = rev (takeWhile (\<lambda>c. c \<noteq> slash) (dropWhile (\<lambda>c. c = slash) (rev p)))"

definition startsWith :: "string \<Rightarrow> string \<Rightarrow> bool" where
  "startsWith s p = prefix p s"

definition endsWith :: "string \<Rightarrow> string \<Rightarrow> bool" where
  "endsWith s p = suffix p s"

section \<open>The file system\<close>

text \<open>
  The disk is a tree of directories and files; a file carries its text. A directory
  holds named entries in listing order. Names that no file system can hold (the empty
  name, \<open>.\<close>, \<open>..\<close>, a name with a \<open>/\<close>) are not entries. There are no symbolic
  links. \<open>cwd\<close> is the working directory of the process.

  A path is followed from the root one segment at a time, as the operating system does:
  an empty segment and \<open>.\<close> stay, \<open>..\<close> goes to the parent (the root is its own
  parent), a name goes to the entry of that name. Any step from a regular file fails
  with \<open>ENOTDIR\<close>, so a path that ends in a slash names a directory or nothing. A
  relative path starts at the working directory. In \<open>oswalk n up segs\<close>, \<open>up\<close> holds
  the directories above \<open>n\<close>, the nearest first.
\<close>

datatype fsnode = File string | Dir "(string \<times> fsnode) list"

record filesystem =
  fs_root :: fsnode
  cwd :: string

datatype error = ENOENT | ENOTDIR | EISDIR | EEXIST | TypeError | SyntaxError

definition valid_name :: "string \<Rightarrow> bool" where
  "valid_name n = (n \<noteq> [] \<and> n \<noteq> ''.'' \<and> n \<noteq> ''..'' \<and> slash \<notin> set n)"

fun entries :: "fsnode \<Rightarrow> (string \<times> fsnode) list" where
  "entries (File _) = []"
| "entries (Dir es) = filter (\<lambda>e. valid_name (fst e)) es"

fun oswalk :: "fsnode \<Rightarrow> fsnode list \<Rightarrow> string list \<Rightarrow> error + fsnode \<times> fsnode list" where
  "oswalk n up [] = Inr (n, up)"
| "oswalk n up (s # ss) =
     (case n of
        File _ \<Rightarrow> Inl ENOTDIR
      | Dir _ \<Rightarrow>
          if s = [] \<or> s = ''.'' then oswalk n up ss
          else if s = ''..'' then (case up of [] \<Rightarrow> oswalk n [] ss | a # as \<Rightarrow> oswalk a as ss)
          else (case map_of (entries n) s of
                  None \<Rightarrow> Inl ENOENT
                | Some c \<Rightarrow> oswalk c (n # up) ss))"

definition raw_segs :: "string \<Rightarrow> string \<Rightarrow> string list" where
  "raw_segs c p = (if isAbsolute p then split_path p else split_path c @ split_path p)"

definition lookup :: "filesystem \<Rightarrow> string \<Rightarrow> error + fsnode" where
  "lookup fs p =
     (if p = [] then Inl ENOENT
      else (case oswalk (fs_root fs) [] (raw_segs (cwd fs) p) of
              Inl e \<Rightarrow> Inl e
            | Inr r \<Rightarrow> Inr (fst r)))"

text \<open>\<open>fs.existsSync(p)\<close>: false whenever the path cannot be followed.\<close>

definition existsSync :: "filesystem \<Rightarrow> string \<Rightarrow> bool" where
  "existsSync fs p = (case lookup fs p of Inl _ \<Rightarrow> False | Inr _ \<Rightarrow> True)"

definition readdirSync :: "filesystem \<Rightarrow> string \<Rightarrow> error + string list" where
  "readdirSync fs p =
     (case lookup fs p of
        Inl e \<Rightarrow> Inl e
      | Inr (File _) \<Rightarrow> Inl ENOTDIR
      | Inr (Dir es) \<Rightarrow> Inr (map fst (entries (Dir es))))"

text \<open>\<open>fs.statSync(p).isDirectory()\<close>\<close>

definition statSync_isDirectory :: "filesystem \<Rightarrow> string \<Rightarrow> error + bool" where
  "statSync_isDirectory fs p =
     (case lookup fs p of
        Inl e \<Rightarrow> Inl e
      | Inr (File _) \<Rightarrow> Inr False
      | Inr (Dir _) \<Rightarrow> Inr True)"

definition readFileSync :: "filesystem \<Rightarrow> string \<Rightarrow> error + string" where
  "readFileSync fs p =
     (case lookup fs p of
        Inl e \<Rightarrow> Inl e
      | Inr (File text) \<Rightarrow> Inr text
      | Inr (Dir _) \<Rightarrow> Inl EISDIR)"

text \<open>
  \<open>fs.mkdirSync(p, { recursive: true })\<close> and \<open>fs.writeFileSync(p, data)\<close> return the
  disk they leave. They follow the path as \<open>oswalk\<close> does, and keep for each directory
  passed the name taken there and the entries of that directory, so that \<open>plug\<close> puts
  the tree back together. The first makes every directory that is missing on the way
  and fails at a regular file: with \<open>EEXIST\<close> if the path ends there, with \<open>ENOTDIR\<close>
  otherwise. The second replaces the text of a file, or adds a file to a directory that
  exists; it fails with \<open>EISDIR\<close> on a directory and on a missing name followed by a
  slash. There are no permissions and no full disks.
\<close>

type_synonym crumb = "string \<times> (string \<times> fsnode) list"

fun plug :: "fsnode \<Rightarrow> crumb list \<Rightarrow> fsnode" where
  "plug n [] = n"
| "plug n ((s, es) # cs) = plug (Dir (AList.update s n es)) cs"

fun mkdirp :: "fsnode \<Rightarrow> crumb list \<Rightarrow> string list \<Rightarrow> error + fsnode" where
  "mkdirp n cs [] = (case n of File _ \<Rightarrow> Inl EEXIST | Dir _ \<Rightarrow> Inr (plug n cs))"
| "mkdirp n cs (s # ss) =
     (case n of
        File _ \<Rightarrow> Inl ENOTDIR
      | Dir es \<Rightarrow>
          if s = [] \<or> s = ''.'' then mkdirp n cs ss
          else if s = ''..''
          then (case cs of
                  [] \<Rightarrow> mkdirp n [] ss
                | c # cs' \<Rightarrow> mkdirp (Dir (AList.update (fst c) n (snd c))) cs' ss)
          else (case map_of (entries n) s of
                  None \<Rightarrow> mkdirp (Dir []) ((s, es) # cs) ss
                | Some c \<Rightarrow> mkdirp c ((s, es) # cs) ss))"

fun write_at :: "fsnode \<Rightarrow> crumb list \<Rightarrow> string list \<Rightarrow> string \<Rightarrow> error + fsnode" where
  "write_at n cs [] data = (case n of File _ \<Rightarrow> Inr (plug (File data) cs) | Dir _ \<Rightarrow> Inl EISDIR)"
| "write_at n cs (s # ss) data =
     (case n of
        File _ \<Rightarrow> Inl ENOTDIR
      | Dir es \<Rightarrow>
          if s = [] \<or> s = ''.'' then write_at n cs ss data
          else if s = ''..''
          then (case cs of
                  [] \<Rightarrow> write_at n [] ss data
                | c # cs' \<Rightarrow> write_at (Dir (AList.update (fst c) n (snd c))) cs' ss data)
          else (case map_of (entries n) s of
                  None \<Rightarrow>
                    if ss = [] then Inr (plug (File data) ((s, es) # cs))
                    else if list_all (\<lambda>t. t = []) ss then Inl EISDIR
                    else Inl ENOENT
                | Some c \<Rightarrow> write_at c ((s, es) # cs) ss data))"

definition mkdirSync_recursive :: "filesystem \<Rightarrow> string \<Rightarrow> error + filesystem" where
  "mkdirSync_recursive fs p =
     (if p = [] then Inl ENOENT
      else (case mkdirp (fs_root fs) [] (raw_segs (cwd fs) p) of
              Inl e \<Rightarrow> Inl e
            | Inr r \<Rightarrow> Inr (fs\<lparr>fs_root := r\<rparr>)))"

definition writeFileSync :: "filesystem \<Rightarrow> string \<Rightarrow> string \<Rightarrow> error + filesystem" where
  "writeFileSync fs p data =
     (if p = [] then Inl ENOENT
      else (case write_at (fs_root fs) [] (raw_segs (cwd fs) p) data of
              Inl e \<Rightarrow> Inl e
            | Inr r \<Rightarrow> Inr (fs\<lparr>fs_root := r\<rparr>)))"

definition node_size :: "error + fsnode \<Rightarrow> nat" where
  "node_size n = (case n of Inl _ \<Rightarrow> 0 | Inr c \<Rightarrow> size c)"

text \<open>A segment that survives normalisation of a relative path.\<close>

definition seg_ok :: "string \<Rightarrow> bool" where
  "seg_ok s = (s \<noteq> [] \<and> s \<noteq> ''.'' \<and> slash \<notin> set s)"

section \<open>Tree items\<close>

text \<open>
  A \<open>vscode.TreeItem\<close> with the fields \<open>extension.js\<close> reads and writes. A field that
  was never set, or was set to \<open>null\<close>, is \<open>None\<close>. \<open>resourceUri\<close> holds the \<open>fsPath\<close> of
  the URI, which for \<open>vscode.Uri.file(p)\<close> is \<open>p\<close>. The fields \<open>_mergePaths\<close> and
  \<open>_fccwPath\<close> are \<open>mergePaths\<close> and \<open>fccwPath\<close> here.
\<close>

datatype collapsibleState = CollapsibleNone | Collapsed | Expanded

record item_command =
  cmd_command :: string
  cmd_title :: string
  cmd_arguments :: "string list"

datatype TreeItem = TreeItem
  (label: string)
  (collapsibleState: collapsibleState)
  (resourceUri: "string option")
  (command: "item_command option")
  (children: "TreeItem list option")
  (mergePaths: "string list option")
  (fccwPath: "string option")

definition new_TreeItem :: "string \<Rightarrow> collapsibleState \<Rightarrow> TreeItem" where
  "new_TreeItem l st = TreeItem l st None None None None None"

fun set_resourceUri :: "string option \<Rightarrow> TreeItem \<Rightarrow> TreeItem" where
  "set_resourceUri v (TreeItem l st u c ch mp fp) = TreeItem l st v c ch mp fp"

fun set_command :: "item_command option \<Rightarrow> TreeItem \<Rightarrow> TreeItem" where
  "set_command v (TreeItem l st u c ch mp fp) = TreeItem l st u v ch mp fp"

fun set_children :: "TreeItem list option \<Rightarrow> TreeItem \<Rightarrow> TreeItem" where
  "set_children v (TreeItem l st u c ch mp fp) = TreeItem l st u c v mp fp"

fun set_mergePaths :: "string list option \<Rightarrow> TreeItem \<Rightarrow> TreeItem" where
  "set_mergePaths v (TreeItem l st u c ch mp fp) = TreeItem l st u c ch v fp"

fun set_fccwPath :: "string option \<Rightarrow> TreeItem \<Rightarrow> TreeItem" where
  "set_fccwPath v (TreeItem l st u c ch mp fp) = TreeItem l st u c ch mp v"

text \<open>
  A loop over a list whose body may throw: the state after the last element, or the
  first error. \<open>collect\<close> runs a list of computations in order, to all their results or
  the first error.
\<close>

fun forEach :: "('s \<Rightarrow> 'a \<Rightarrow> error + 's) \<Rightarrow> 'a list \<Rightarrow> 's \<Rightarrow> error + 's" where
  "forEach body [] s = Inr s"
| "forEach body (x # xs) s =
     (case body s x of Inl e \<Rightarrow> Inl e | Inr s' \<Rightarrow> forEach body xs s')"

fun collect :: "(error + 'a) list \<Rightarrow> error + 'a list" where
  "collect [] = Inr []"
| "collect (x # xs) =
     (case x of
        Inl e \<Rightarrow> Inl e
      | Inr v \<Rightarrow> (case collect xs of Inl e \<Rightarrow> Inl e | Inr vs \<Rightarrow> Inr (v # vs)))"

text \<open>Lines 211 to 224: the item made for a name seen for the first time.\<close>

definition new_entry :: "string \<Rightarrow> string \<Rightarrow> bool \<Rightarrow> TreeItem" where
  "new_entry f filePath isDir =
     (let item = new_TreeItem f (if isDir then Collapsed else CollapsibleNone);
          item = set_resourceUri (Some filePath) item;
          item = (if \<not> isDir
                  then set_command (Some \<lparr>cmd_command = ''vscode.open'', cmd_title = ''Open File'',
                                          cmd_arguments = [filePath]\<rparr>) item
                  else item)
      in if isDir then set_mergePaths (Some [filePath]) item else item)"

text \<open>
  Lines 203 to 225, the body of the inner loop of \<open>_getFilesFromFolders\<close>, for the
  entry \<open>f\<close> of the folder \<open>folderPath\<close>. \<open>merged\<close> is the \<open>Map\<close>, in insertion order.
  On line 207, \<open>merged.get(f)._mergePaths.push(filePath)\<close> throws a \<open>TypeError\<close> when the
  item has no \<open>_mergePaths\<close>.
\<close>

definition scan_file ::
  "filesystem \<Rightarrow> string \<Rightarrow> (string \<times> TreeItem) list \<Rightarrow> string \<Rightarrow> error + (string \<times> TreeItem) list" where
  "scan_file fs folderPath merged f =
     (let filePath = path_join [folderPath, f]
      in case statSync_isDirectory fs filePath of
           Inl e \<Rightarrow> Inl e
         | Inr isDir \<Rightarrow>
             (case map_of merged f of
                Some existing \<Rightarrow>
                  if isDir then
                    (case mergePaths existing of
                       None \<Rightarrow> Inl TypeError
                     | Some ps \<Rightarrow>
                         Inr (AList.update f (set_mergePaths (Some (ps @ [filePath])) existing) merged))
                  else Inr merged
              | None \<Rightarrow> Inr (AList.update f (new_entry f filePath isDir) merged)))"

text \<open>
  Lines 197 to 226, the body of the outer loop, for one folder name. A name that is
  \<open>undefined\<close> or empty is skipped, and so is a folder that does not exist.
\<close>

definition scan_folder ::
  "filesystem \<Rightarrow> string \<Rightarrow> bool \<Rightarrow> (string \<times> TreeItem) list \<Rightarrow> string option
     \<Rightarrow> error + (string \<times> TreeItem) list" where
  "scan_folder fs workspaceRoot isFullPath merged folderName =
     (case folderName of
        None \<Rightarrow> Inr merged
      | Some name \<Rightarrow>
          if name = [] then Inr merged
          else
            let folderPath = (if isFullPath then name else path_join [workspaceRoot, name])
            in if \<not> existsSync fs folderPath then Inr merged
               else (case readdirSync fs folderPath of
                       Inl e \<Rightarrow> Inl e
                     | Inr files \<Rightarrow> forEach (scan_file fs folderPath) files merged))"

text \<open>
  The measure of the recursion: the largest directory tree among the folders of a call.
  Every path a call hands to the next one is a directory inside one of its own folders.
\<close>

definition root_size :: "filesystem \<Rightarrow> string \<Rightarrow> bool \<Rightarrow> string option \<Rightarrow> nat" where
  "root_size fs workspaceRoot isFullPath folderName =
     (case folderName of
        None \<Rightarrow> 0
      | Some name \<Rightarrow>
          if name = [] then 0
          else node_size (lookup fs (if isFullPath then name else path_join [workspaceRoot, name])))"

definition roots_size :: "filesystem \<times> string \<times> string option list \<times> bool \<Rightarrow> nat" where
  "roots_size a = (case a of (fs, workspaceRoot, folderNames, isFullPath) \<Rightarrow>
     Max (set (0 # map (root_size fs workspaceRoot isFullPath) folderNames)))"

definition bounded :: "filesystem \<Rightarrow> nat \<Rightarrow> (string \<times> TreeItem) list \<Rightarrow> bool" where
  "bounded fs m merged =
     (\<forall>e\<in>set merged. 0 < m \<and>
        (\<forall>ps. mergePaths (snd e) = Some ps \<longrightarrow> (\<forall>q\<in>set ps. node_size (lookup fs q) < m)))"

section \<open>Facts about paths and the file system\<close>

lemma split_path_nonempty: "split_path s \<noteq> []"
  by (induction s) (auto split: list.splits)

lemma split_path_append: "split_path (a @ slash # b) = split_path a @ split_path b"
proof (induction a)
  case Nil
  show ?case using split_path_nonempty[of b] by (cases "split_path b") auto
next
  case (Cons c a)
  show ?case
  proof (cases "c = slash")
    case True
    then show ?thesis using Cons by simp
  next
    case False
    obtain s ss where "split_path a = s # ss"
      using split_path_nonempty[of a] by (cases "split_path a") auto
    then show ?thesis using False Cons by simp
  qed
qed

lemma split_path_noslash: "slash \<notin> set s \<Longrightarrow> split_path s = [s]"
  by (induction s) auto

lemma split_segs_noslash: "t \<in> set (split_path s) \<Longrightarrow> slash \<notin> set t"
  by (induction s arbitrary: t) (auto split: if_splits list.splits)

lemma split_join:
  "xs \<noteq> [] \<Longrightarrow> \<forall>t\<in>set xs. slash \<notin> set t \<Longrightarrow> split_path (join_segs xs) = xs"
proof (induction xs rule: join_segs.induct)
  case 1
  then show ?case by simp
next
  case (2 s)
  then show ?case by (simp add: split_path_noslash)
next
  case (3 s t ss)
  then show ?case by (simp add: split_path_append split_path_noslash)
qed

lemma join_segs_snoc: "xs \<noteq> [] \<Longrightarrow> join_segs (xs @ [f]) = join_segs xs @ slash # f"
  by (induction xs rule: join_segs.induct) auto

lemma join_segs_nonempty: "xs \<noteq> [] \<Longrightarrow> \<forall>t\<in>set xs. t \<noteq> [] \<Longrightarrow> join_segs xs \<noteq> []"
  by (induction xs rule: join_segs.induct) auto

lemma join_segs_hd: "xs \<noteq> [] \<Longrightarrow> hd xs \<noteq> [] \<Longrightarrow> hd (join_segs xs) = hd (hd xs)"
  by (induction xs rule: join_segs.induct) auto

lemma norm_step_valid: "valid_name f \<Longrightarrow> norm_step b res f = res @ [f]"
  by (auto simp: norm_step_def valid_name_def)

lemma foldl_norm_valid: "\<forall>s\<in>set xs. valid_name s \<Longrightarrow> foldl (norm_step b) C xs = C @ xs"
  by (induction xs arbitrary: C) (auto simp: norm_step_valid)

lemma norm_step_False_valid:
  "list_all valid_name res \<Longrightarrow> slash \<notin> set seg \<Longrightarrow> list_all valid_name (norm_step False res seg)"
  by (auto simp: norm_step_def valid_name_def list_all_iff dest: in_set_butlastD)

lemma foldl_norm_False_valid:
  "list_all valid_name C \<Longrightarrow> \<forall>t\<in>set xs. slash \<notin> set t \<Longrightarrow>
   list_all valid_name (foldl (norm_step False) C xs)"
proof (induction xs arbitrary: C)
  case Nil
  then show ?case by simp
next
  case (Cons x xs)
  have "list_all valid_name (norm_step False C x)"
    using Cons.prems by (intro norm_step_False_valid) auto
  from Cons.IH[OF this] Cons.prems(2) show ?case by simp
qed

lemma norm_step_True_nodot:
  assumes "list_all seg_ok res" and "slash \<notin> set seg"
  shows "list_all seg_ok (norm_step True res seg)"
proof -
  have b: "list_all seg_ok (butlast res)"
    using assms(1) by (auto simp: list_all_iff dest: in_set_butlastD)
  have d: "seg_ok ''..''" by (simp add: seg_ok_def slash_def)
  show ?thesis
  proof (cases "seg = [] \<or> seg = ''.''")
    case True
    then show ?thesis using assms(1) by (simp add: norm_step_def)
  next
    case False
    then have "seg_ok seg" using assms(2) by (simp add: seg_ok_def)
    then show ?thesis using assms(1) b d False by (simp add: norm_step_def)
  qed
qed

lemma foldl_norm_True_nodot:
  "list_all seg_ok C \<Longrightarrow> \<forall>t\<in>set xs. slash \<notin> set t \<Longrightarrow>
   list_all seg_ok (foldl (norm_step True) C xs)"
proof (induction xs arbitrary: C)
  case Nil
  then show ?case by simp
next
  case (Cons x xs)
  have "list_all seg_ok (norm_step True C x)"
    using Cons.prems by (intro norm_step_True_nodot) auto
  from Cons.IH[OF this] Cons.prems(2) show ?case by simp
qed

lemma normalizeString_snoc:
  "normalizeString b (xs @ [y]) = norm_step b (normalizeString b xs) y"
  by (simp add: normalizeString_def)

lemma foldl_norm_rel:
  assumes "\<forall>t\<in>set xs. slash \<notin> set t"
  shows "foldl (norm_step False) C (normalizeString True xs) = foldl (norm_step False) C xs"
  using assms
proof (induction xs rule: rev_induct)
  case Nil
  then show ?case by (simp add: normalizeString_def)
next
  case (snoc y xs)
  let ?M = "normalizeString True xs"
  have IH: "foldl (norm_step False) C ?M = foldl (norm_step False) C xs"
    using snoc by simp
  have "list_all seg_ok ?M"
    unfolding normalizeString_def using snoc.prems
    by (intro foldl_norm_True_nodot) auto
  then have nodot: "\<forall>s\<in>set ?M. s \<noteq> [] \<and> s \<noteq> ''.'' \<and> slash \<notin> set s"
    by (simp add: list_all_iff seg_ok_def)
  show ?case
  proof (cases "y = ''..'' \<and> ?M \<noteq> [] \<and> last ?M \<noteq> ''..''")
    case True
    then have st: "norm_step True ?M y = butlast ?M" by (simp add: norm_step_def)
    have lastM: "last ?M \<in> set ?M" using True by simp
    then have v: "valid_name (last ?M)" using nodot True by (auto simp: valid_name_def)
    have "foldl (norm_step False) C ?M = foldl (norm_step False) C (butlast ?M @ [last ?M])"
      using True by simp
    also have "\<dots> = foldl (norm_step False) C (butlast ?M) @ [last ?M]"
      using v by (simp add: norm_step_valid)
    finally have eq: "foldl (norm_step False) C xs = foldl (norm_step False) C (butlast ?M) @ [last ?M]"
      using IH by simp
    have "foldl (norm_step False) C (xs @ [y]) = norm_step False (foldl (norm_step False) C xs) ''..''"
      using True by simp
    also have "\<dots> = foldl (norm_step False) C (butlast ?M)"
      using True by (simp add: eq norm_step_def)
    finally show ?thesis by (simp add: normalizeString_snoc st)
  next
    case False
    have "norm_step True ?M y = ?M \<or> norm_step True ?M y = ?M @ [y]"
      using False by (auto simp: norm_step_def)
    then show ?thesis
    proof
      assume a: "norm_step True ?M y = ?M"
      then have "y = [] \<or> y = ''.''" using False by (auto simp: norm_step_def split: if_splits)
      then have "norm_step False (foldl (norm_step False) C xs) y = foldl (norm_step False) C xs"
        by (auto simp: norm_step_def)
      then show ?thesis using a IH by (simp add: normalizeString_snoc)
    next
      assume a: "norm_step True ?M y = ?M @ [y]"
      then show ?thesis using IH by (simp add: normalizeString_snoc)
    qed
  qed
qed

lemma isAbsolute_Cons: "isAbsolute (c # cs) = (c = slash)"
  by (simp add: isAbsolute_def)

lemma normalizeString_Nil_Cons: "normalizeString b ([] # xs) = normalizeString b xs"
  by (simp add: normalizeString_def norm_step_def)

lemma resolve_segs_valid: "list_all valid_name (resolve_segs c p)"
  unfolding resolve_segs_def normalizeString_def
  by (intro foldl_norm_False_valid) (auto dest: split_segs_noslash)

lemma resolve_join:
  assumes f: "valid_name f" and p: "p \<noteq> []"
  shows "resolve_segs c (path_join [p, f]) = resolve_segs c p @ [f]"
proof -
  have fne: "f \<noteq> []" and fns: "slash \<notin> set f" using f by (auto simp: valid_name_def)
  let ?q = "p @ slash # f"
  have pj: "path_join [p, f] = path_normalize ?q"
    using p fne by (simp add: path_join_def)
  have absq: "isAbsolute ?q = isAbsolute p" using p by (cases p) (auto simp: isAbsolute_def)
  have "last ?q = last f" using fne by simp
  moreover have "last f \<in> set f" using fne by simp
  ultimately have lastq: "last ?q \<noteq> slash" using fns by auto
  have splitq: "split_path ?q = split_path p @ [f]"
    using fns by (simp add: split_path_append split_path_noslash)
  let ?N = "normalizeString (\<not> isAbsolute p) (split_path p)"
  have nq: "normalizeString (\<not> isAbsolute p) (split_path ?q) = ?N @ [f]"
    using f by (simp add: splitq normalizeString_snoc norm_step_valid)
  have Nprop: "\<forall>s\<in>set ?N. s \<noteq> [] \<and> slash \<notin> set s"
  proof (cases "isAbsolute p")
    case True
    have "list_all valid_name (foldl (norm_step False) [] (split_path p))"
      by (intro foldl_norm_False_valid) (auto dest: split_segs_noslash)
    then show ?thesis using True by (auto simp: normalizeString_def valid_name_def list_all_iff)
  next
    case False
    have "list_all seg_ok (foldl (norm_step True) [] (split_path p))"
      by (intro foldl_norm_True_nodot) (auto dest: split_segs_noslash)
    then show ?thesis using False by (auto simp: normalizeString_def list_all_iff seg_ok_def)
  qed
  have js_ne: "join_segs (?N @ [f]) \<noteq> []"
    using Nprop fne by (intro join_segs_nonempty) auto
  have norm: "path_normalize ?q = (if isAbsolute p then ''/'' else '''') @ join_segs (?N @ [f])"
    using js_ne lastq by (simp add: path_normalize_def absq nq Let_def)
  have sj: "split_path (join_segs (?N @ [f])) = ?N @ [f]"
    using Nprop fns by (intro split_join) auto
  show ?thesis
  proof (cases "isAbsolute p")
    case True
    have r: "path_join [p, f] = slash # join_segs (?N @ [f])"
      unfolding pj norm using True by (simp add: slash_def)
    have "list_all valid_name (foldl (norm_step False) [] (split_path p))"
      by (intro foldl_norm_False_valid) (auto dest: split_segs_noslash)
    then have valid: "\<forall>s\<in>set ?N. valid_name s"
      using True by (simp add: normalizeString_def list_all_iff)
    have "resolve_segs c (path_join [p, f]) = normalizeString False (?N @ [f])"
      unfolding r resolve_segs_def by (simp add: isAbsolute_Cons sj normalizeString_Nil_Cons)
    also have "\<dots> = foldl (norm_step False) [] (?N @ [f])"
      by (simp only: normalizeString_def)
    also have "\<dots> = [] @ (?N @ [f])"
      by (rule foldl_norm_valid) (use valid f in auto)
    finally show ?thesis using True by (simp add: resolve_segs_def)
  next
    case False
    have r: "path_join [p, f] = join_segs (?N @ [f])"
      using False by (simp add: pj norm)
    have hin: "hd (?N @ [f]) \<in> set (?N @ [f])" by (rule hd_in_set) simp
    moreover have "\<forall>s\<in>set (?N @ [f]). s \<noteq> [] \<and> slash \<notin> set s"
      using Nprop fne fns by simp
    ultimately have hdne: "hd (?N @ [f]) \<noteq> []" and hns: "slash \<notin> set (hd (?N @ [f]))"
      by blast+
    have "hd (hd (?N @ [f])) \<in> set (hd (?N @ [f]))" using hdne by (rule hd_in_set)
    then have "hd (hd (?N @ [f])) \<noteq> slash" using hns by auto
    moreover have "hd (join_segs (?N @ [f])) = hd (hd (?N @ [f]))"
      using hdne by (intro join_segs_hd) auto
    ultimately have "hd (join_segs (?N @ [f])) \<noteq> slash" by simp
    then have nabs: "\<not> isAbsolute (path_join [p, f])"
      unfolding r using js_ne by (cases "join_segs (?N @ [f])") (simp_all add: isAbsolute_Cons)
    have "resolve_segs c (path_join [p, f]) = normalizeString False (split_path c @ ?N @ [f])"
      using nabs by (simp add: resolve_segs_def r sj)
    also have "\<dots> = norm_step False (foldl (norm_step False) (foldl (norm_step False) [] (split_path c)) ?N) f"
      by (simp add: normalizeString_def)
    also have "foldl (norm_step False) (foldl (norm_step False) [] (split_path c)) ?N
         = foldl (norm_step False) (foldl (norm_step False) [] (split_path c)) (split_path p)"
      using False by (simp add: foldl_norm_rel split_segs_noslash)
    finally show ?thesis using False f by (simp add: resolve_segs_def normalizeString_def norm_step_valid)
  qed
qed

lemma entries_size: "(f, c) \<in> set (entries n) \<Longrightarrow> size c < size n"
proof (cases n)
  case (File x)
  assume "(f, c) \<in> set (entries n)"
  then show ?thesis using File by simp
next
  case (Dir es)
  assume "(f, c) \<in> set (entries n)"
  then have "(f, c) \<in> set es" using Dir by simp
  then have "size_prod (\<lambda>x. 0) size (f, c) \<le> size_list (size_prod (\<lambda>x. 0) size) es"
    by (simp add: size_list_estimation')
  then show ?thesis using Dir by simp
qed

lemma path_join_nonempty: "path_join xs \<noteq> []"
  by (auto simp: path_join_def path_normalize_def Let_def)

lemma oswalk_append:
  "oswalk n up (xs @ ys) =
     (case oswalk n up xs of Inl e \<Rightarrow> Inl e | Inr r \<Rightarrow> oswalk (fst r) (snd r) ys)"
  by (induction xs arbitrary: n up) (auto split: fsnode.splits list.splits option.splits)

lemma oswalk_snoc_Inr:
  assumes "oswalk n up (xs @ [y]) = Inr r"
  obtains m um where "oswalk n up xs = Inr (m, um)" and "oswalk m um [y] = Inr r"
proof (cases "oswalk n up xs")
  case (Inl e)
  then show ?thesis using assms by (simp add: oswalk_append)
next
  case (Inr q)
  then have "oswalk n up xs = Inr (fst q, snd q)" by simp
  moreover have "oswalk (fst q) (snd q) [y] = Inr r"
    using assms Inr by (simp only: oswalk_append sum.case)
  ultimately show ?thesis by (rule that)
qed

lemma oswalk_skip:
  "y = [] \<or> y = ''.'' \<Longrightarrow> oswalk m um [y] = Inr r \<Longrightarrow> r = (m, um)"
  by (cases m) auto

lemma oswalk_name:
  assumes "valid_name v"
  shows "oswalk m um [v] =
     (case m of
        File _ \<Rightarrow> Inl ENOTDIR
      | Dir _ \<Rightarrow> (case map_of (entries m) v of None \<Rightarrow> Inl ENOENT | Some c \<Rightarrow> Inr (c, m # um)))"
  using assms by (cases m) (auto simp: valid_name_def split: option.splits)

lemma oswalk_name_Inr:
  assumes "valid_name v" and "oswalk m um [v] = Inr r"
  shows "snd r = m # um"
  using assms(2) unfolding oswalk_name[OF assms(1)]
  by (auto split: fsnode.splits option.splits)

lemma oswalk_up_Cons:
  "oswalk c (m # um) [''..''] = Inr r \<Longrightarrow> r = (m, um)"
  by (cases c) auto

lemma oswalk_up_Nil:
  "oswalk c [] [''..''] = Inr r \<Longrightarrow> r = (c, [])"
  by (cases c) auto

text \<open>Walking a path and walking its normal form arrive at the same place.\<close>

lemma oswalk_norm_step:
  assumes xs: "\<forall>t\<in>set (xs @ [y]). slash \<notin> set t"
    and ok: "list_all seg_ok M"
    and top: "b \<or> up = [] \<and> list_all valid_name M"
    and IH: "oswalk n up M = Inr (m, um)"
    and st: "oswalk m um [y] = Inr r"
  shows "oswalk n up (norm_step b M y) = Inr r"
proof (cases "y = [] \<or> y = ''.''")
  case True
  then have "r = (m, um)" using st by (rule oswalk_skip)
  then show ?thesis using True IH by (simp add: norm_step_def)
next
  case False
  show ?thesis
  proof (cases "y = ''..''")
    case dd: True
    show ?thesis
    proof (cases "M \<noteq> [] \<and> last M \<noteq> ''..''")
      case pop: True
      then have lm: "last M \<in> set M" by simp
      then have v: "valid_name (last M)"
        using ok pop by (auto simp: list_all_iff seg_ok_def valid_name_def)
      have "oswalk n up (butlast M @ [last M]) = Inr (m, um)" using IH pop by simp
      then obtain m2 u2 where w2: "oswalk n up (butlast M) = Inr (m2, u2)"
        and l: "oswalk m2 u2 [last M] = Inr (m, um)"
        by (rule oswalk_snoc_Inr)
      from oswalk_name_Inr[OF v l] have um: "um = m2 # u2" by simp
      have "r = (m2, u2)" using st dd um oswalk_up_Cons by simp
      then show ?thesis using pop dd w2 by (simp add: norm_step_def)
    next
      case nopop: False
      show ?thesis
      proof (cases b)
        case True
        then have "norm_step b M y = M @ [y]" using nopop dd by (auto simp: norm_step_def)
        then show ?thesis using IH st by (simp add: oswalk_append)
      next
        case False
        then have u: "up = []" and vm: "list_all valid_name M" using top by auto
        have "M = []"
        proof (rule ccontr)
          assume "M \<noteq> []"
          then have "last M \<in> set M" by simp
          then have "valid_name (last M)" using vm by (simp add: list_all_iff)
          then have "last M \<noteq> ''..''" by (auto simp: valid_name_def)
          then show False using nopop \<open>M \<noteq> []\<close> by simp
        qed
        then have "(m, um) = (n, [])" using IH u by simp
        then have "r = (n, [])" using st dd oswalk_up_Nil by simp
        then show ?thesis using False dd \<open>M = []\<close> u by (simp add: norm_step_def)
      qed
    qed
  next
    case nd: False
    then have "norm_step b M y = M @ [y]" using False by (simp add: norm_step_def)
    then show ?thesis using IH st by (simp add: oswalk_append)
  qed
qed

lemma oswalk_norm_rel:
  "\<forall>t\<in>set xs. slash \<notin> set t \<Longrightarrow> oswalk n up xs = Inr r \<Longrightarrow>
   oswalk n up (normalizeString True xs) = Inr r"
proof (induction xs arbitrary: r rule: rev_induct)
  case Nil
  then show ?case by (simp add: normalizeString_def)
next
  case (snoc y xs)
  from snoc.prems(2) obtain m um where w: "oswalk n up xs = Inr (m, um)"
    and st: "oswalk m um [y] = Inr r"
    by (rule oswalk_snoc_Inr)
  have IH: "oswalk n up (normalizeString True xs) = Inr (m, um)"
    using snoc.IH snoc.prems(1) w by simp
  have ok: "list_all seg_ok (normalizeString True xs)"
    unfolding normalizeString_def using snoc.prems(1) by (intro foldl_norm_True_nodot) auto
  show ?case
    unfolding normalizeString_snoc
    by (rule oswalk_norm_step[OF snoc.prems(1) ok _ IH st]) simp
qed

lemma oswalk_norm_abs:
  "\<forall>t\<in>set xs. slash \<notin> set t \<Longrightarrow> oswalk n [] xs = Inr r \<Longrightarrow>
   oswalk n [] (normalizeString False xs) = Inr r"
proof (induction xs arbitrary: r rule: rev_induct)
  case Nil
  then show ?case by (simp add: normalizeString_def)
next
  case (snoc y xs)
  from snoc.prems(2) obtain m um where w: "oswalk n [] xs = Inr (m, um)"
    and st: "oswalk m um [y] = Inr r"
    by (rule oswalk_snoc_Inr)
  have IH: "oswalk n [] (normalizeString False xs) = Inr (m, um)"
    using snoc.IH snoc.prems(1) w by simp
  have v: "list_all valid_name (normalizeString False xs)"
    unfolding normalizeString_def using snoc.prems(1) by (intro foldl_norm_False_valid) auto
  then have ok: "list_all seg_ok (normalizeString False xs)"
    by (auto simp: list_all_iff seg_ok_def valid_name_def)
  show ?case
    unfolding normalizeString_snoc
    by (rule oswalk_norm_step[OF snoc.prems(1) ok _ IH st]) (simp add: v)
qed

text \<open>The path of an entry, as \<open>path.join\<close> writes it.\<close>

lemma path_join_split:
  assumes f: "valid_name f" and p: "p \<noteq> []"
  shows "isAbsolute (path_join [p, f]) = isAbsolute p"
    and "split_path (path_join [p, f]) =
           (if isAbsolute p then [[]] else [])
           @ normalizeString (\<not> isAbsolute p) (split_path p) @ [f]"
proof -
  have fne: "f \<noteq> []" and fns: "slash \<notin> set f" using f by (auto simp: valid_name_def)
  define N where "N = normalizeString (\<not> isAbsolute p) (split_path p)"
  have ok: "list_all seg_ok N"
    unfolding N_def normalizeString_def
  proof (cases "isAbsolute p")
    case True
    have "list_all valid_name (foldl (norm_step False) [] (split_path p))"
      by (intro foldl_norm_False_valid) (auto dest: split_segs_noslash)
    then show "list_all seg_ok (foldl (norm_step (\<not> isAbsolute p)) [] (split_path p))"
      using True by (auto simp: list_all_iff seg_ok_def valid_name_def)
  next
    case False
    have "list_all seg_ok (foldl (norm_step True) [] (split_path p))"
      by (intro foldl_norm_True_nodot) (auto dest: split_segs_noslash)
    then show "list_all seg_ok (foldl (norm_step (\<not> isAbsolute p)) [] (split_path p))"
      using False by simp
  qed
  have okf: "list_all seg_ok (N @ [f])" using ok f by (simp add: seg_ok_def valid_name_def)
  have sj: "split_path (join_segs (N @ [f])) = N @ [f]"
    by (rule split_join) (use okf in \<open>auto simp: list_all_iff seg_ok_def\<close>)
  have hin: "hd (N @ [f]) \<in> set (N @ [f])" by (rule hd_in_set) simp
  then have "seg_ok (hd (N @ [f]))" using okf unfolding list_all_iff by blast
  then have hne: "hd (N @ [f]) \<noteq> []" and hns: "slash \<notin> set (hd (N @ [f]))"
    by (auto simp: seg_ok_def)
  have "hd (hd (N @ [f])) \<in> set (hd (N @ [f]))" using hne by (rule hd_in_set)
  then have h1: "hd (hd (N @ [f])) \<noteq> slash" using hns by auto
  have h2: "hd (join_segs (N @ [f])) = hd (hd (N @ [f]))"
    using hne by (intro join_segs_hd) auto
  have jne: "join_segs (N @ [f]) \<noteq> []"
    by (rule join_segs_nonempty) (use okf in \<open>auto simp: list_all_iff seg_ok_def\<close>)
  have nabs: "\<not> isAbsolute (join_segs (N @ [f]))"
    using h1 h2 jne by (cases "join_segs (N @ [f])") (simp_all add: isAbsolute_def)
  let ?q = "p @ slash # f"
  have pj: "path_join [p, f] = path_normalize ?q" using p fne by (simp add: path_join_def)
  have absq: "isAbsolute ?q = isAbsolute p" using p by (cases p) (auto simp: isAbsolute_def)
  have "last ?q = last f" using fne by simp
  moreover have "last f \<in> set f" using fne by simp
  ultimately have lastq: "last ?q \<noteq> slash" using fns by auto
  have splitq: "split_path ?q = split_path p @ [f]"
    using fns by (simp add: split_path_append split_path_noslash)
  have nq: "normalizeString (\<not> isAbsolute p) (split_path ?q) = N @ [f]"
    using f by (simp add: splitq normalizeString_snoc norm_step_valid N_def)
  have "path_normalize ?q = (if isAbsolute p then ''/'' else []) @ join_segs (N @ [f])"
    using jne lastq by (simp add: path_normalize_def absq nq Let_def)
  then have form: "path_join [p, f] = (if isAbsolute p then [slash] else []) @ join_segs (N @ [f])"
    by (simp add: pj slash_def)
  show "isAbsolute (path_join [p, f]) = isAbsolute p"
    unfolding form using nabs by (simp add: isAbsolute_def)
  show "split_path (path_join [p, f]) =
           (if isAbsolute p then [[]] else [])
           @ normalizeString (\<not> isAbsolute p) (split_path p) @ [f]"
    unfolding form N_def[symmetric] using sj by simp
qed

lemma lookup_join:
  assumes f: "valid_name f" and n: "lookup fs p = Inr n"
  shows "lookup fs (path_join [p, f]) =
     (case n of
        File _ \<Rightarrow> Inl ENOTDIR
      | Dir _ \<Rightarrow> (case map_of (entries n) f of None \<Rightarrow> Inl ENOENT | Some c \<Rightarrow> Inr c))"
proof -
  have p: "p \<noteq> []" using n by (auto simp: lookup_def split: if_splits)
  obtain up where w: "oswalk (fs_root fs) [] (raw_segs (cwd fs) p) = Inr (n, up)"
    using n p by (auto simp: lookup_def split: sum.splits)
  define N where "N = normalizeString (\<not> isAbsolute p) (split_path p)"
  have ns: "\<forall>t\<in>set (split_path p). slash \<notin> set t" by (auto dest: split_segs_noslash)
  have step: "oswalk n up [f] =
     (case n of
        File _ \<Rightarrow> Inl ENOTDIR
      | Dir _ \<Rightarrow> (case map_of (entries n) f of None \<Rightarrow> Inl ENOENT | Some c \<Rightarrow> Inr (c, n # up)))"
    using f by (rule oswalk_name)
  have "oswalk (fs_root fs) [] (raw_segs (cwd fs) (path_join [p, f])) = oswalk n up [f]"
  proof (cases "isAbsolute p")
    case True
    have w': "oswalk (fs_root fs) [] (split_path p) = Inr (n, up)"
      using w True by (simp add: raw_segs_def)
    then have wn: "oswalk (fs_root fs) [] N = Inr (n, up)"
      unfolding N_def using True oswalk_norm_abs[OF ns] by simp
    obtain es where root: "fs_root fs = Dir es"
      using w' split_path_nonempty[of p]
      by (cases "fs_root fs"; cases "split_path p") auto
    have "raw_segs (cwd fs) (path_join [p, f]) = [] # N @ [f]"
      using True path_join_split[OF f p] by (simp add: raw_segs_def N_def)
    then show ?thesis using root wn by (simp add: oswalk_append)
  next
    case False
    have "oswalk (fs_root fs) [] (split_path (cwd fs) @ split_path p) = Inr (n, up)"
      using w False by (simp add: raw_segs_def)
    then obtain m um where wc: "oswalk (fs_root fs) [] (split_path (cwd fs)) = Inr (m, um)"
      and wp: "oswalk m um (split_path p) = Inr (n, up)"
      by (auto simp: oswalk_append split: sum.splits)
    have wn: "oswalk m um N = Inr (n, up)"
      unfolding N_def using False oswalk_norm_rel[OF ns wp] by simp
    have "raw_segs (cwd fs) (path_join [p, f]) = split_path (cwd fs) @ N @ [f]"
      using False path_join_split[OF f p] by (simp add: raw_segs_def N_def)
    then show ?thesis using wc wn by (simp add: oswalk_append)
  qed
  then show ?thesis
    using step by (auto simp: lookup_def path_join_nonempty split: fsnode.splits option.splits)
qed

lemma readdir_names:
  assumes "readdirSync fs p = Inr names"
  shows "\<exists>es. lookup fs p = Inr (Dir es) \<and> names = map fst (entries (Dir es))"
  using assms by (auto simp: readdirSync_def split: sum.splits fsnode.splits)

lemma entries_valid: "f \<in> fst ` set (entries n) \<Longrightarrow> valid_name f"
  by (cases n) auto

lemma lookup_child:
  assumes "readdirSync fs p = Inr names" and "f \<in> set names"
  shows "\<exists>c. lookup fs (path_join [p, f]) = Inr c \<and> size c < node_size (lookup fs p)"
proof -
  obtain es where l: "lookup fs p = Inr (Dir es)" and nm: "names = map fst (entries (Dir es))"
    using readdir_names[OF assms(1)] by blast
  define n where "n = Dir es"
  have n: "lookup fs p = Inr n" and names: "names = map fst (entries n)"
    using l nm by (simp_all add: n_def)
  have fin: "f \<in> fst ` set (entries n)" using assms(2) names by simp
  then have v: "valid_name f" by (rule entries_valid)
  obtain c where c: "map_of (entries n) f = Some c"
    using fin by (metis domD dom_map_of_conv_image_fst)
  then have "(f, c) \<in> set (entries n)" by (rule map_of_SomeD)
  then have "size c < size n" by (rule entries_size)
  then show ?thesis using lookup_join[OF v n] c n by (simp add: node_size_def n_def)
qed

section \<open>The merge of several folders terminates\<close>

lemma set_update_cases:
  "e \<in> set (AList.update k v al) \<Longrightarrow> e = (k, v) \<or> e \<in> set al"
  by (induction al) (auto split: if_splits)

lemma mergePaths_set_mergePaths [simp]: "mergePaths (set_mergePaths v i) = v"
  by (cases i) simp

lemma mergePaths_new_entry:
  "mergePaths (new_entry f p d) = (if d then Some [p] else None)"
  by (simp add: new_entry_def new_TreeItem_def)

lemma scan_file_bounded:
  assumes rd: "readdirSync fs p = Inr files" and f: "f \<in> set files"
    and m: "node_size (lookup fs p) \<le> m"
    and b: "bounded fs m merged" and s: "scan_file fs p merged f = Inr merged'"
  shows "bounded fs m merged'"
proof -
  obtain c where c: "lookup fs (path_join [p, f]) = Inr c" and lt: "size c < node_size (lookup fs p)"
    using lookup_child[OF rd f] by blast
  have q: "node_size (lookup fs (path_join [p, f])) < m" using c lt m by (simp add: node_size_def)
  then have pos: "0 < m" by simp
  have "\<exists>d. statSync_isDirectory fs (path_join [p, f]) = Inr d"
    using c by (cases c) (auto simp: statSync_isDirectory_def)
  then obtain d where d: "statSync_isDirectory fs (path_join [p, f]) = Inr d" ..
  show ?thesis
  proof (cases "map_of merged f")
    case None
    then have "merged' = AList.update f (new_entry f (path_join [p, f]) d) merged"
      using s d by (simp add: scan_file_def)
    then show ?thesis
      using b q pos unfolding bounded_def
      by (auto dest!: set_update_cases simp: mergePaths_new_entry split: if_splits)
  next
    case (Some ex)
    then have exin: "(f, ex) \<in> set merged" by (rule map_of_SomeD)
    show ?thesis
    proof (cases d)
      case False
      then have "merged' = merged"
        using s d Some by (simp add: scan_file_def)
      then show ?thesis using b by simp
    next
      case True
      then obtain ps where ps: "mergePaths ex = Some ps"
        and m': "merged' = AList.update f (set_mergePaths (Some (ps @ [path_join [p, f]])) ex) merged"
        using s d Some
        by (auto simp: scan_file_def split: option.splits)
      have "\<forall>q\<in>set ps. node_size (lookup fs q) < m"
        using b exin ps unfolding bounded_def by fastforce
      then show ?thesis
        using b q pos unfolding bounded_def m'
        by (auto dest!: set_update_cases)
    qed
  qed
qed

lemma forEach_scan_file_bounded:
  assumes rd: "readdirSync fs p = Inr files" and m: "node_size (lookup fs p) \<le> m"
  shows "set xs \<subseteq> set files \<Longrightarrow> bounded fs m merged \<Longrightarrow>
         forEach (scan_file fs p) xs merged = Inr merged' \<Longrightarrow> bounded fs m merged'"
proof (induction xs arbitrary: merged)
  case Nil
  then show ?case by simp
next
  case (Cons x xs)
  from Cons.prems(3) obtain mid where mid: "scan_file fs p merged x = Inr mid"
    and rest: "forEach (scan_file fs p) xs mid = Inr merged'"
    by (auto split: sum.splits)
  have "x \<in> set files" using Cons.prems(1) by simp
  then have "bounded fs m mid" using scan_file_bounded[OF rd _ m Cons.prems(2) mid] by simp
  then show ?case using Cons.IH rest Cons.prems(1) by simp
qed

lemma scan_folder_bounded:
  assumes m: "root_size fs ws full r \<le> m" and b: "bounded fs m merged"
    and s: "scan_folder fs ws full merged r = Inr merged'"
  shows "bounded fs m merged'"
proof (cases "r = None \<or> r = Some []")
  case True
  then show ?thesis using s b by (auto simp: scan_folder_def)
next
  case False
  then obtain name where r: "r = Some name" and ne: "name \<noteq> []" by auto
  let ?fp = "if full then name else path_join [ws, name]"
  show ?thesis
  proof (cases "existsSync fs ?fp")
    case False
    then show ?thesis using s b r ne by (auto simp: scan_folder_def Let_def)
  next
    case True
    then obtain files where rd: "readdirSync fs ?fp = Inr files"
      and fe: "forEach (scan_file fs ?fp) files merged = Inr merged'"
      using s r ne by (auto simp: scan_folder_def Let_def split: sum.splits if_splits)
    have "node_size (lookup fs ?fp) \<le> m" using m r ne by (simp add: root_size_def)
    from forEach_scan_file_bounded[OF rd this _ b fe] show ?thesis by simp
  qed
qed

lemma forEach_scan_folder_bounded:
  "\<forall>r\<in>set rs. root_size fs ws full r \<le> m \<Longrightarrow> bounded fs m merged \<Longrightarrow>
   forEach (scan_folder fs ws full) rs merged = Inr merged' \<Longrightarrow> bounded fs m merged'"
proof (induction rs arbitrary: merged)
  case Nil
  then show ?case by simp
next
  case (Cons r rs)
  from Cons.prems(3) obtain mid where mid: "scan_folder fs ws full merged r = Inr mid"
    and rest: "forEach (scan_folder fs ws full) rs mid = Inr merged'"
    by (auto split: sum.splits)
  have "bounded fs m mid" using scan_folder_bounded[OF _ Cons.prems(2) mid] Cons.prems(1) by simp
  then show ?case using Cons.IH rest Cons.prems(1) by simp
qed

lemma roots_size_ge:
  "r \<in> set rs \<Longrightarrow> root_size fs ws full r \<le> roots_size (fs, ws, rs, full)"
  by (simp add: roots_size_def)

lemma merge_decreases:
  assumes "forEach (scan_folder fs ws full) rs [] = Inr merged"
    and "item \<in> set (map snd merged)" and "mergePaths item = Some ps"
  shows "roots_size (fs, ws, map Some ps, True) < roots_size (fs, ws, rs, full)"
proof -
  let ?m = "roots_size (fs, ws, rs, full)"
  have "bounded fs ?m []" by (simp add: bounded_def)
  then have "bounded fs ?m merged"
    using forEach_scan_folder_bounded[OF _ _ assms(1)] roots_size_ge by blast
  then have pos: "0 < ?m" and lt: "\<forall>q\<in>set ps. node_size (lookup fs q) < ?m"
    using assms(2,3) unfolding bounded_def by fastforce+
  have "\<forall>q\<in>set ps. root_size fs ws True (Some q) < ?m"
    using lt pos by (simp add: root_size_def)
  then show ?thesis using pos
    unfolding roots_size_def[of "(fs, ws, map Some ps, True)"] by (simp add: comp_def)
qed

text \<open>
  \<open>_getFilesFromFolders(folderNames, isFullPath)\<close>, lines 192 to 238: the scan of all
  folders, then for every item with merge paths the merge of those paths as its children.
  \<open>folderNames\<close> is an array at each of the three calls, so the guard of line 193 never
  returns.
\<close>

function getFilesFromFolders ::
  "filesystem \<Rightarrow> string \<Rightarrow> string option list \<Rightarrow> bool \<Rightarrow> error + TreeItem list" where
  "getFilesFromFolders fs workspaceRoot folderNames isFullPath =
     (case forEach (scan_folder fs workspaceRoot isFullPath) folderNames [] of
        Inl e \<Rightarrow> Inl e
      | Inr merged \<Rightarrow>
          collect (map (\<lambda>item.
              case mergePaths item of
                None \<Rightarrow> Inr item
              | Some ps \<Rightarrow>
                  (case getFilesFromFolders fs workspaceRoot (map Some ps) True of
                     Inl e \<Rightarrow> Inl e
                   | Inr cs \<Rightarrow> Inr (set_children (Some cs) (set_mergePaths None item))))
            (map snd merged)))"
  by pat_completeness auto
termination
proof (relation "measure roots_size")
  show "wf (measure roots_size)" by simp
next
  fix fs workspaceRoot folderNames isFullPath merged item ps
  assume "forEach (scan_folder fs workspaceRoot isFullPath) folderNames [] = Inr merged"
    and "item \<in> set (map snd merged)" and "mergePaths item = Some ps"
  then show "((fs, workspaceRoot, map Some ps, True), (fs, workspaceRoot, folderNames, isFullPath))
               \<in> measure roots_size"
    using merge_decreases by simp
qed

section \<open>The tree provider\<close>

text \<open>The parsed text of a \<open>.fccw\<close> file: the three fields the extension reads.\<close>

record fccw_json =
  json_sourceDirectory :: "string option"
  json_resourcesDirectory :: "string option"
  json_includeDirectory :: "string option"

text \<open>The fields of \<open>FFHTMLTreeDataProvider\<close> and its constructor, lines 109 to 116.\<close>

record provider =
  workspaceRoot :: string
  sourceDirectory :: string
  includeDirectory :: string
  resourcesDirectory :: string

definition FFHTMLTreeDataProvider :: "string \<Rightarrow> provider" where
  "FFHTMLTreeDataProvider ws =
     \<lparr>workspaceRoot = ws,
      sourceDirectory = path_join [ws, ''web-src''],
      includeDirectory = path_join [ws, ''include''],
      resourcesDirectory = path_join [ws, ''res'']\<rparr>"

text \<open>JavaScript truthiness of an optional string: present and not empty.\<close>

definition truthy :: "string option \<Rightarrow> bool" where
  "truthy v = (case v of None \<Rightarrow> False | Some s \<Rightarrow> s \<noteq> [])"

text \<open>\<open>_getFoldersFromConfig(json)\<close>, lines 174 to 190.\<close>

definition getFoldersFromConfig :: "filesystem \<Rightarrow> provider \<Rightarrow> fccw_json \<Rightarrow> error + TreeItem list" where
  "getFoldersFromConfig fs this json =
     (case (if truthy (json_sourceDirectory json) \<or> truthy (json_resourcesDirectory json)
            then (case getFilesFromFolders fs (workspaceRoot this)
                         [json_sourceDirectory json, json_resourcesDirectory json] False of
                    Inl e \<Rightarrow> Inl e
                  | Inr cs \<Rightarrow> Inr [set_children (Some cs) (new_TreeItem ''Combined source'' Collapsed)])
            else Inr []) of
        Inl e \<Rightarrow> Inl e
      | Inr sections \<Rightarrow>
          if truthy (json_includeDirectory json)
          then (case getFilesFromFolders fs (workspaceRoot this) [json_includeDirectory json] False of
                  Inl e \<Rightarrow> Inl e
                | Inr cs \<Rightarrow> Inr (sections @ [set_children (Some cs) (new_TreeItem ''Includes'' Collapsed)]))
          else Inr sections)"

text \<open>\<open>fs.readdirSync(dir, { withFileTypes: true })\<close>: each name with whether it is a directory.\<close>

definition readdirSync_withFileTypes :: "filesystem \<Rightarrow> string \<Rightarrow> error + (string \<times> bool) list" where
  "readdirSync_withFileTypes fs p =
     (case lookup fs p of
        Inl e \<Rightarrow> Inl e
      | Inr (File _) \<Rightarrow> Inl ENOTDIR
      | Inr (Dir es) \<Rightarrow>
          Inr (map (\<lambda>e. (fst e, case snd e of File _ \<Rightarrow> False | Dir _ \<Rightarrow> True)) (entries (Dir es))))"

lemma lookup_child_typed:
  assumes "readdirSync_withFileTypes fs p = Inr items" and "item \<in> set items"
  shows "node_size (lookup fs (path_join [p, fst item])) < node_size (lookup fs p)"
proof -
  obtain es where l: "lookup fs p = Inr (Dir es)"
    and items: "items = map (\<lambda>e. (fst e, case snd e of File _ \<Rightarrow> False | Dir _ \<Rightarrow> True)) (entries (Dir es))"
    using assms(1) by (auto simp: readdirSync_withFileTypes_def split: sum.splits fsnode.splits)
  have rd: "readdirSync fs p = Inr (map fst (entries (Dir es)))"
    using l by (simp add: readdirSync_def)
  have "fst item \<in> set (map fst (entries (Dir es)))"
    using assms(2) items by force
  from lookup_child[OF rd this] show ?thesis by (auto simp: node_size_def)
qed

text \<open>\<open>_findFCCWFiles(dir)\<close>, lines 160 to 172.\<close>

function findFCCWFiles :: "filesystem \<Rightarrow> string \<Rightarrow> error + string list" where
  "findFCCWFiles fs dir =
     (case readdirSync_withFileTypes fs dir of
        Inl e \<Rightarrow> Inl e
      | Inr items \<Rightarrow>
          (case collect (map (\<lambda>item.
                   let fullPath = path_join [dir, fst item]
                   in if \<not> snd item \<and> endsWith (fst item) ''.fccw'' then Inr [fullPath]
                      else if snd item then findFCCWFiles fs fullPath
                      else Inr []) items) of
             Inl e \<Rightarrow> Inl e
           | Inr found \<Rightarrow> Inr (concat found)))"
  by pat_completeness auto
termination
proof (relation "measure (\<lambda>(fs, dir). node_size (lookup fs dir))")
  show "wf (measure (\<lambda>(fs, dir). node_size (lookup fs dir)))" by simp
next
  fix fs dir items item fullPath
  assume "readdirSync_withFileTypes fs dir = Inr items" and "item \<in> set items"
    and "fullPath = path_join [dir, fst item]"
  then show "((fs, fullPath), (fs, dir)) \<in> measure (\<lambda>(fs, dir). node_size (lookup fs dir))"
    using lookup_child_typed by simp
qed

text \<open>
  Lines 138 to 139 and 151 to 152: read a configuration file, parse it, build its
  sections. \<open>JSON.parse\<close> belongs to the runtime and is a parameter; it gives the three
  fields read from the parsed object, or an error.
\<close>

definition config_sections ::
  "(string \<Rightarrow> error + fccw_json) \<Rightarrow> filesystem \<Rightarrow> provider \<Rightarrow> string \<Rightarrow> error + TreeItem list" where
  "config_sections JSON_parse fs this file =
     (case readFileSync fs file of
        Inl e \<Rightarrow> Inl e
      | Inr text \<Rightarrow>
          (case JSON_parse text of
             Inl e \<Rightarrow> Inl e
           | Inr json \<Rightarrow> getFoldersFromConfig fs this json))"

text \<open>\<open>getChildren(element)\<close>, lines 126 to 158.\<close>

definition getChildren ::
  "(string \<Rightarrow> error + fccw_json) \<Rightarrow> filesystem \<Rightarrow> provider \<Rightarrow> TreeItem option \<Rightarrow> error + TreeItem list" where
  "getChildren JSON_parse fs this element =
     (if workspaceRoot this = [] then Inr []
      else
        (case element of
           None \<Rightarrow>
             (case findFCCWFiles fs (workspaceRoot this) of
                Inl e \<Rightarrow> Inl e
              | Inr fccwFiles \<Rightarrow>
                  if length fccwFiles = 0
                  then Inr [new_TreeItem ''No .fccw workspace found'' CollapsibleNone]
                  else if length fccwFiles = 1
                  then config_sections JSON_parse fs this (hd fccwFiles)
                  else Inr (map (\<lambda>file. set_fccwPath (Some file)
                                           (new_TreeItem (path_basename file) Collapsed))
                              fccwFiles))
         | Some el \<Rightarrow>
             if truthy (fccwPath el) then config_sections JSON_parse fs this (the (fccwPath el))
             else (case children el of Some cs \<Rightarrow> Inr cs | None \<Rightarrow> Inr [])))"

section \<open>Creating and deleting files\<close>

text \<open>
  What a command asks of the platform, in order, when every call returns. A call that
  fails throws: the command ends there with that error, shows no message and does not
  refresh the tree. Removing a node that \<open>statSync\<close> has just found is taken to
  succeed.
\<close>

datatype effect =
    MkdirSync string
  | WriteFileSync string string
  | RmdirSync string
  | UnlinkSync string
  | ShowInformationMessage string
  | Refresh

text \<open>Lines 53 to 56 and 64 to 67 of \<open>createFilePrompt\<close>.\<close>

definition baseDir_of :: "provider \<Rightarrow> string \<Rightarrow> string option" where
  "baseDir_of treeProvider type =
     (if type = ''resource'' then Some (resourcesDirectory treeProvider)
      else if type = ''source'' then Some (sourceDirectory treeProvider)
      else if type = ''include'' then Some (includeDirectory treeProvider)
      else None)"

definition elementTypeDir_of :: "provider \<Rightarrow> string \<Rightarrow> string option" where
  "elementTypeDir_of treeProvider fsPath =
     (if startsWith fsPath (sourceDirectory treeProvider) then Some (sourceDirectory treeProvider)
      else if startsWith fsPath (resourcesDirectory treeProvider)
      then Some (resourcesDirectory treeProvider)
      else if startsWith fsPath (includeDirectory treeProvider)
      then Some (includeDirectory treeProvider)
      else None)"

text \<open>Lines 53 to 78 of \<open>createFilePrompt\<close>: the directory the new file goes to.\<close>

definition targetDir_of ::
  "filesystem \<Rightarrow> provider \<Rightarrow> TreeItem option \<Rightarrow> string \<Rightarrow> error + string option" where
  "targetDir_of fs treeProvider element type =
     (let baseDir = baseDir_of treeProvider type
      in case element of
           None \<Rightarrow> Inr baseDir
         | Some el \<Rightarrow>
             (case resourceUri el of
                None \<Rightarrow> Inr baseDir
              | Some fsPath \<Rightarrow>
                  (case statSync_isDirectory fs fsPath of
                     Inl e \<Rightarrow> Inl e
                   | Inr isDir \<Rightarrow>
                       let elementTypeDir = elementTypeDir_of treeProvider fsPath
                       in if truthy elementTypeDir then
                            (let rel = path_relative (cwd fs) (the elementTypeDir)
                                         (if isDir then fsPath else path_dirname fsPath)
                             in case baseDir of
                                  None \<Rightarrow> Inl TypeError
                                | Some b \<Rightarrow> Inr (Some (path_join [b, rel])))
                          else if isDir then Inr (Some fsPath)
                          else Inr (Some (path_dirname fsPath)))))"

text \<open>
  \<open>createFilePrompt(element, type)\<close>, lines 49 to 85; \<open>fileName\<close> is what the input box
  returned. \<open>deleteFilePrompt(element)\<close>, lines 87 to 106; \<open>confirm\<close> is what the warning
  dialog returned.
\<close>

definition createFilePrompt ::
  "filesystem \<Rightarrow> provider \<Rightarrow> string option \<Rightarrow> TreeItem option \<Rightarrow> string \<Rightarrow> error + effect list" where
  "createFilePrompt fs treeProvider fileName element type =
     (if \<not> truthy fileName then Inr []
      else
        (case targetDir_of fs treeProvider element type of
           Inl e \<Rightarrow> Inl e
         | Inr None \<Rightarrow> Inl TypeError
         | Inr (Some targetDir) \<Rightarrow>
             let targetPath = path_join [targetDir, the fileName]
             in (case mkdirSync_recursive fs (path_dirname targetPath) of
                   Inl e \<Rightarrow> Inl e
                 | Inr fs1 \<Rightarrow>
                     (case writeFileSync fs1 targetPath [] of
                        Inl e \<Rightarrow> Inl e
                      | Inr fs2 \<Rightarrow>
                          Inr [MkdirSync (path_dirname targetPath),
                               WriteFileSync targetPath [],
                               ShowInformationMessage (type @ '' file created: '' @ targetPath),
                               Refresh]))))"

definition deleteFilePrompt ::
  "filesystem \<Rightarrow> string option \<Rightarrow> TreeItem option \<Rightarrow> error + effect list" where
  "deleteFilePrompt fs confirm element =
     (case element of
        None \<Rightarrow> Inr []
      | Some el \<Rightarrow>
          (case resourceUri el of
             None \<Rightarrow> Inr []
           | Some fsPath \<Rightarrow>
               if confirm \<noteq> Some ''Delete'' then Inr []
               else
                 (case statSync_isDirectory fs fsPath of
                    Inl e \<Rightarrow> Inl e
                  | Inr isDir \<Rightarrow>
                      Inr [if isDir then RmdirSync fsPath else UnlinkSync fsPath,
                           ShowInformationMessage (fsPath @ '' deleted.''),
                           Refresh])))"

section \<open>Notions used to state the properties\<close>

text \<open>The path of the folder a root names, line 198.\<close>

definition root_path :: "string \<Rightarrow> bool \<Rightarrow> string \<Rightarrow> string" where
  "root_path ws isFullPath name =
     (if isFullPath then name else path_join [ws, name])"

text \<open>A root that names a directory absent from the disk.\<close>

definition root_missing :: "filesystem \<Rightarrow> string \<Rightarrow> bool \<Rightarrow> string option \<Rightarrow> bool" where
  "root_missing fs ws isFullPath r =
     (case r of
        None \<Rightarrow> False
      | Some name \<Rightarrow> name \<noteq> [] \<and> \<not> existsSync fs (root_path ws isFullPath name))"

text \<open>The names a root contributes to the scan: its listing, nothing when it is skipped.\<close>

definition scanned_files :: "filesystem \<Rightarrow> string \<Rightarrow> bool \<Rightarrow> string option \<Rightarrow> string list" where
  "scanned_files fs ws isFullPath r =
     (case r of
        None \<Rightarrow> []
      | Some name \<Rightarrow>
          if name = [] \<or> \<not> existsSync fs (root_path ws isFullPath name) then []
          else (case readdirSync fs (root_path ws isFullPath name) of
                  Inl e \<Rightarrow> []
                | Inr files \<Rightarrow> files))"

text \<open>The directories named \<open>n\<close> that the roots hold, in the order of the roots.\<close>

definition contributing :: "filesystem \<Rightarrow> string \<Rightarrow> bool \<Rightarrow> string option list \<Rightarrow> string \<Rightarrow> string list" where
  "contributing fs ws isFullPath roots n =
     concat (map (\<lambda>r. concat (map (\<lambda>f.
         if f = n \<and> statSync_isDirectory fs
                       (path_join [root_path ws isFullPath (the r), f]) = Inr True
         then [path_join [root_path ws isFullPath (the r), f]] else [])
       (scanned_files fs ws isFullPath r))) roots)"

text \<open>Lines 229 to 235, for one item: its merge paths, if any, merged into its children.\<close>

definition expand :: "filesystem \<Rightarrow> string \<Rightarrow> TreeItem \<Rightarrow> error + TreeItem" where
  "expand fs ws item =
     (case mergePaths item of
        None \<Rightarrow> Inr item
      | Some ps \<Rightarrow>
          (case getFilesFromFolders fs ws (map Some ps) True of
             Inl e \<Rightarrow> Inl e
           | Inr cs \<Rightarrow> Inr (set_children (Some cs) (set_mergePaths None item))))"

text \<open>The path of the first root, in the order given, whose listing holds the name \<open>n\<close>.\<close>

definition first_root :: "filesystem \<Rightarrow> string \<Rightarrow> bool \<Rightarrow> string option list \<Rightarrow> string \<Rightarrow> string option" where
  "first_root fs ws isFullPath roots n =
     map_option (\<lambda>r. root_path ws isFullPath (the r))
       (List.find (\<lambda>r. n \<in> set (scanned_files fs ws isFullPath r)) roots)"

text \<open>
  What holds of the map during the scan: no key twice and every item under its own label;
  the item of \<open>k\<close> has the path of \<open>k\<close> in the first folder that listed it; the item of
  \<open>n\<close> has as merge paths the directories named \<open>n\<close> seen so far.
\<close>

definition keys_ok :: "(string \<times> TreeItem) list \<Rightarrow> bool" where
  "keys_ok merged = (distinct (map fst merged) \<and> (\<forall>e\<in>set merged. label (snd e) = fst e))"

definition canonical :: "string \<Rightarrow> (string \<times> TreeItem) list \<Rightarrow> string option \<Rightarrow> bool" where
  "canonical k merged first =
     (case map_of merged k of
        None \<Rightarrow> first = None
      | Some item \<Rightarrow> \<exists>fp. first = Some fp \<and> resourceUri item = Some (path_join [fp, k]))"

definition accumulated :: "string \<Rightarrow> (string \<times> TreeItem) list \<Rightarrow> string list \<Rightarrow> bool" where
  "accumulated n merged paths =
     (case map_of merged n of
        None \<Rightarrow> paths = []
      | Some item \<Rightarrow> mergePaths item = (if paths = [] then None else Some paths))"

text \<open>Joining a non-empty path with a name: the normalised path, then the name.\<close>

definition join_stem :: "string \<Rightarrow> string" where
  "join_stem p =
     (let n = normalizeString (\<not> isAbsolute p) (split_path p)
      in (if isAbsolute p then [slash] else []) @ (if n = [] then [] else join_segs n @ [slash]))"

text \<open>A path is inside a directory: the directory itself, or below it.\<close>

definition inside_dir :: "string \<Rightarrow> string \<Rightarrow> string \<Rightarrow> bool" where
  "inside_dir c dir p = prefix (resolve_segs c dir) (resolve_segs c p)"

text \<open>A disk with every file emptied: what is left is which directories and files exist.\<close>

primrec erase :: "fsnode \<Rightarrow> fsnode" where
  "erase (File t) = File []"
| "erase (Dir es) = Dir (map (map_prod id erase) es)"

definition erase_crumbs :: "crumb list \<Rightarrow> crumb list" where
  "erase_crumbs cs = map (map_prod id (map (map_prod id erase))) cs"

text \<open>Two disks that differ at most in the texts of their files.\<close>

definition same_shape :: "filesystem \<Rightarrow> filesystem \<Rightarrow> bool" where
  "same_shape fs fs' = (cwd fs = cwd fs' \<and> erase (fs_root fs) = erase (fs_root fs'))"

text \<open>
  The name \<open>n\<close> is first met as a directory: the first root, in the order given, whose
  listing holds \<open>n\<close> holds a directory of that name, so \<open>n\<close> is not a file in a root
  given before the roots where it is a directory.
\<close>

definition first_seen_directory ::
  "filesystem \<Rightarrow> string \<Rightarrow> bool \<Rightarrow> string option list \<Rightarrow> string \<Rightarrow> bool" where
  "first_seen_directory fs ws isFullPath roots n =
     (case first_root fs ws isFullPath roots n of
        None \<Rightarrow> False
      | Some fp \<Rightarrow> statSync_isDirectory fs (path_join [fp, n]) = Inr True)"

text \<open>The node that stands for one configuration file when there are several.\<close>

definition config_node :: "string \<Rightarrow> TreeItem" where
  "config_node file = TreeItem (path_basename file) Collapsed None None None None (Some file)"

section \<open>Example disks\<close>

text \<open>A workspace \<open>/ws\<close> with nothing in it.\<close>

definition fs_empty :: filesystem where
  "fs_empty = \<lparr>fs_root = Dir [(''ws'', Dir [])], cwd = ''/''\<rparr>"

text \<open>
  A workspace with one configuration file, the directory \<open>a\<close> both in \<open>web-src\<close> and in
  \<open>res\<close>, and a directory \<open>res-extra\<close> beside \<open>res\<close>.
\<close>

definition fs_scenario :: filesystem where
  "fs_scenario =
     \<lparr>fs_root = Dir [(''ws'', Dir [
          (''proj.fccw'', File ''web-src res include''),
          (''web-src'', Dir [(''a'', Dir [(''x.txt'', File [])])]),
          (''res'', Dir [(''a'', Dir [(''y.txt'', File [])])]),
          (''res-extra'', Dir [])])],
      cwd = ''/''\<rparr>"

text \<open>
  A workspace where \<open>n\<close> is a file in \<open>web-src\<close> and a directory in \<open>res\<close> and in \<open>more\<close>,
  and \<open>plain\<close> is a file.
\<close>

definition fs_clash :: filesystem where
  "fs_clash =
     \<lparr>fs_root = Dir [(''ws'', Dir [
          (''web-src'', Dir [(''n'', File [])]),
          (''res'', Dir [(''n'', Dir [(''y.txt'', File [])])]),
          (''more'', Dir [(''n'', Dir [])]),
          (''plain'', File [])])],
      cwd = ''/''\<rparr>"

text \<open>
  A workspace whose files are in \<open>src\<close>, and the same workspace with another text in its
  configuration file.
\<close>

definition fs_config :: filesystem where
  "fs_config =
     \<lparr>fs_root = Dir [(''ws'', Dir [
          (''proj.fccw'', File ''sourceDirectory: src''),
          (''src'', Dir [(''main.txt'', File [])])])],
      cwd = ''/''\<rparr>"

definition fs_config' :: filesystem where
  "fs_config' =
     \<lparr>fs_root = Dir [(''ws'', Dir [
          (''proj.fccw'', File ''sourceDirectory: web-src''),
          (''src'', Dir [(''main.txt'', File [])])])],
      cwd = ''/''\<rparr>"

text \<open>A workspace with a file in each of the three default directories.\<close>

definition fs_full :: filesystem where
  "fs_full =
     \<lparr>fs_root = Dir [(''ws'', Dir [
          (''web-src'', Dir [(''x.txt'', File [])]),
          (''res'', Dir [(''y.txt'', File [])]),
          (''include'', Dir [(''h.txt'', File [])])])],
      cwd = ''/''\<rparr>"

text \<open>A workspace with two configuration files, at different depths.\<close>

definition fs_two :: filesystem where
  "fs_two =
     \<lparr>fs_root = Dir [(''ws'', Dir [
          (''a.fccw'', File ''web-src res include''),
          (''web-src'', Dir [(''x.txt'', File [])]),
          (''sub'', Dir [(''b.fccw'', File ''include'')])])],
      cwd = ''/''\<rparr>"

text \<open>A parser for the texts the example disks hold.\<close>

definition parse_example :: "string \<Rightarrow> error + fccw_json" where
  "parse_example text =
     (if text = ''web-src res include''
      then Inr \<lparr>json_sourceDirectory = Some ''web-src'', json_resourcesDirectory = Some ''res'',
                json_includeDirectory = Some ''include''\<rparr>
      else if text = ''include''
      then Inr \<lparr>json_sourceDirectory = None, json_resourcesDirectory = None,
                json_includeDirectory = Some ''include''\<rparr>
      else Inl SyntaxError)"

text \<open>The item of a file, and the items the examples meet.\<close>

definition file_item :: "string \<Rightarrow> string \<Rightarrow> TreeItem" where
  "file_item name p =
     TreeItem name CollapsibleNone (Some p)
       (Some \<lparr>cmd_command = ''vscode.open'', cmd_title = ''Open File'', cmd_arguments = [p]\<rparr>)
       None None None"

definition scenario_a :: TreeItem where
  "scenario_a =
     TreeItem ''a'' Collapsed (Some ''/ws/web-src/a'') None
       (Some [file_item ''x.txt'' ''/ws/web-src/a/x.txt'', file_item ''y.txt'' ''/ws/res/a/y.txt''])
       None None"

definition sibling_node :: TreeItem where
  "sibling_node = TreeItem ''res-extra'' Collapsed (Some ''/ws/res-extra'') None (Some []) None None"

lemma scenario_merge:
  "getFilesFromFolders fs_scenario ''/ws'' [Some ''web-src'', Some ''res''] False = Inr [scenario_a]"
  by code_simp

lemma scenario_contributing:
  "contributing fs_scenario ''/ws'' False [Some ''web-src'', Some ''res''] ''a''
     = [''/ws/web-src/a'', ''/ws/res/a'']"
  by code_simp

section \<open>Sections of a configuration\<close>

lemma label_set_children [simp]: "label (set_children v i) = label i"
  by (cases i) simp

lemma label_new_TreeItem [simp]: "label (new_TreeItem l st) = l"
  by (simp add: new_TreeItem_def)

text \<open>
  C7 does not hold of a field that is present and empty: with \<open>sourceDirectory\<close> and
  \<open>includeDirectory\<close> set to the empty string no section is built, as the tests of lines
  177 and 183 are on the truth of the strings.
\<close>

theorem C7_counterexample:
  "json_sourceDirectory \<lparr>json_sourceDirectory = Some [], json_resourcesDirectory = None,
        json_includeDirectory = Some []\<rparr> \<noteq> None
   \<and> json_includeDirectory \<lparr>json_sourceDirectory = Some [], json_resourcesDirectory = None,
        json_includeDirectory = Some []\<rparr> \<noteq> None
   \<and> getFoldersFromConfig fs_full (FFHTMLTreeDataProvider ''/ws'')
       \<lparr>json_sourceDirectory = Some [], json_resourcesDirectory = None,
        json_includeDirectory = Some []\<rparr>
     = Inr []"
  by code_simp

text \<open>
  C7, as the code has it. A field counts when it is present and not the empty string.
  Whenever the merges of the directories that count return, the sections built from a
  parsed configuration are "Combined source", with the merge of the source and resources
  directories as its children, exactly when \<open>sourceDirectory\<close> or \<open>resourcesDirectory\<close>
  counts, followed by "Includes", with the merge of the include directory as its
  children, exactly when \<open>includeDirectory\<close> counts; and whatever list of sections is
  built has these labels and no other.
\<close>

theorem C7_sections:
  "(((truthy (json_sourceDirectory json) \<or> truthy (json_resourcesDirectory json)) \<longrightarrow>
       getFilesFromFolders fs (workspaceRoot this)
         [json_sourceDirectory json, json_resourcesDirectory json] False = Inr cs) \<longrightarrow>
    (truthy (json_includeDirectory json) \<longrightarrow>
       getFilesFromFolders fs (workspaceRoot this) [json_includeDirectory json] False = Inr ics) \<longrightarrow>
    getFoldersFromConfig fs this json =
      Inr ((if truthy (json_sourceDirectory json) \<or> truthy (json_resourcesDirectory json)
            then [TreeItem ''Combined source'' Collapsed None None (Some cs) None None] else [])
           @ (if truthy (json_includeDirectory json)
              then [TreeItem ''Includes'' Collapsed None None (Some ics) None None] else [])))
   \<and> (getFoldersFromConfig fs this json = Inr sections \<longrightarrow>
        map label sections =
          (if truthy (json_sourceDirectory json) \<or> truthy (json_resourcesDirectory json)
           then [''Combined source''] else [])
          @ (if truthy (json_includeDirectory json) then [''Includes''] else []))"
proof (intro conjI impI)
  assume m1: "(truthy (json_sourceDirectory json) \<or> truthy (json_resourcesDirectory json)) \<longrightarrow>
       getFilesFromFolders fs (workspaceRoot this)
         [json_sourceDirectory json, json_resourcesDirectory json] False = Inr cs"
    and m2: "truthy (json_includeDirectory json) \<longrightarrow>
       getFilesFromFolders fs (workspaceRoot this) [json_includeDirectory json] False = Inr ics"
  show "getFoldersFromConfig fs this json =
      Inr ((if truthy (json_sourceDirectory json) \<or> truthy (json_resourcesDirectory json)
            then [TreeItem ''Combined source'' Collapsed None None (Some cs) None None] else [])
           @ (if truthy (json_includeDirectory json)
              then [TreeItem ''Includes'' Collapsed None None (Some ics) None None] else []))"
    using m1 m2 unfolding getFoldersFromConfig_def
    by (simp add: new_TreeItem_def)
next
  assume "getFoldersFromConfig fs this json = Inr sections"
  then show "map label sections =
          (if truthy (json_sourceDirectory json) \<or> truthy (json_resourcesDirectory json)
           then [''Combined source''] else [])
          @ (if truthy (json_includeDirectory json) then [''Includes''] else [])"
    unfolding getFoldersFromConfig_def
    by (auto split: if_splits sum.splits)
qed

theorem C7_sections_witness:
  "getFilesFromFolders fs_full ''/ws'' [Some ''web-src'', Some ''res''] False
     = Inr [file_item ''x.txt'' ''/ws/web-src/x.txt'', file_item ''y.txt'' ''/ws/res/y.txt'']
   \<and> getFilesFromFolders fs_full ''/ws'' [Some ''include''] False
     = Inr [file_item ''h.txt'' ''/ws/include/h.txt'']
   \<and> getFoldersFromConfig fs_full (FFHTMLTreeDataProvider ''/ws'')
       \<lparr>json_sourceDirectory = Some ''web-src'', json_resourcesDirectory = Some ''res'',
        json_includeDirectory = Some ''include''\<rparr>
     = Inr [TreeItem ''Combined source'' Collapsed None None
              (Some [file_item ''x.txt'' ''/ws/web-src/x.txt'',
                     file_item ''y.txt'' ''/ws/res/y.txt'']) None None,
            TreeItem ''Includes'' Collapsed None None
              (Some [file_item ''h.txt'' ''/ws/include/h.txt'']) None None]
   \<and> getFoldersFromConfig fs_full (FFHTMLTreeDataProvider ''/ws'')
       \<lparr>json_sourceDirectory = None, json_resourcesDirectory = None,
        json_includeDirectory = Some ''include''\<rparr>
     = Inr [TreeItem ''Includes'' Collapsed None None
              (Some [file_item ''h.txt'' ''/ws/include/h.txt'']) None None]
   \<and> getFoldersFromConfig fs_full (FFHTMLTreeDataProvider ''/ws'')
       \<lparr>json_sourceDirectory = None, json_resourcesDirectory = Some ''res'',
        json_includeDirectory = None\<rparr>
     = Inr [TreeItem ''Combined source'' Collapsed None None
              (Some [file_item ''y.txt'' ''/ws/res/y.txt'']) None None]
   \<and> getFoldersFromConfig fs_full (FFHTMLTreeDataProvider ''/ws'')
       \<lparr>json_sourceDirectory = None, json_resourcesDirectory = None,
        json_includeDirectory = None\<rparr>
     = Inr []
   \<and> map label [TreeItem ''Combined source'' Collapsed None None
              (Some [file_item ''x.txt'' ''/ws/web-src/x.txt'',
                     file_item ''y.txt'' ''/ws/res/y.txt'']) None None,
            TreeItem ''Includes'' Collapsed None None
              (Some [file_item ''h.txt'' ''/ws/include/h.txt'']) None None]
     = [''Combined source'', ''Includes'']"
proof -
  have w: "workspaceRoot (FFHTMLTreeDataProvider ''/ws'') = ''/ws''"
    by (simp add: FFHTMLTreeDataProvider_def)
  have m1: "getFilesFromFolders fs_full ''/ws'' [Some ''web-src'', Some ''res''] False
     = Inr [file_item ''x.txt'' ''/ws/web-src/x.txt'', file_item ''y.txt'' ''/ws/res/y.txt'']"
    by code_simp
  have m2: "getFilesFromFolders fs_full ''/ws'' [Some ''include''] False
     = Inr [file_item ''h.txt'' ''/ws/include/h.txt'']"
    by code_simp
  have m3: "getFilesFromFolders fs_full ''/ws'' [None, Some ''res''] False
     = Inr [file_item ''y.txt'' ''/ws/res/y.txt'']"
    by code_simp
  have t: "truthy (Some ''web-src'')" "truthy (Some ''res'')" "truthy (Some ''include'')"
    "\<not> truthy None"
    by (simp_all add: truthy_def)
  note all = C7_sections [of "\<lparr>json_sourceDirectory = Some ''web-src'',
        json_resourcesDirectory = Some ''res'', json_includeDirectory = Some ''include''\<rparr>"
      fs_full "FFHTMLTreeDataProvider ''/ws''"
      "[file_item ''x.txt'' ''/ws/web-src/x.txt'', file_item ''y.txt'' ''/ws/res/y.txt'']"
      "[file_item ''h.txt'' ''/ws/include/h.txt'']"
      "[TreeItem ''Combined source'' Collapsed None None
              (Some [file_item ''x.txt'' ''/ws/web-src/x.txt'',
                     file_item ''y.txt'' ''/ws/res/y.txt'']) None None,
            TreeItem ''Includes'' Collapsed None None
              (Some [file_item ''h.txt'' ''/ws/include/h.txt'']) None None]"]
  note inc = C7_sections [of "\<lparr>json_sourceDirectory = None,
        json_resourcesDirectory = None, json_includeDirectory = Some ''include''\<rparr>"
      fs_full "FFHTMLTreeDataProvider ''/ws''" "[]"
      "[file_item ''h.txt'' ''/ws/include/h.txt'']" "[]"]
  note res = C7_sections [of "\<lparr>json_sourceDirectory = None,
        json_resourcesDirectory = Some ''res'', json_includeDirectory = None\<rparr>"
      fs_full "FFHTMLTreeDataProvider ''/ws''" "[file_item ''y.txt'' ''/ws/res/y.txt'']"
      "[]" "[]"]
  note none = C7_sections [of "\<lparr>json_sourceDirectory = None,
        json_resourcesDirectory = None, json_includeDirectory = None\<rparr>"
      fs_full "FFHTMLTreeDataProvider ''/ws''" "[]" "[]" "[]"]
  from all inc res none m1 m2 m3 t show ?thesis by (simp add: w)
qed

section \<open>Cancelled commands\<close>

text \<open>
  C8. A create command whose prompt returns no name or the empty name, and a delete
  command whose confirmation is not "Delete", end without an error and ask nothing of
  the platform: no directory made, no file written or removed, no refresh of the tree.
\<close>

theorem C8_cancel_is_noop:
  "(\<not> truthy fileName \<longrightarrow> createFilePrompt fs treeProvider fileName element type = Inr [])
   \<and> (confirm \<noteq> Some ''Delete'' \<longrightarrow> deleteFilePrompt fs confirm element' = Inr [])"
  by (auto simp: createFilePrompt_def deleteFilePrompt_def split: option.splits)

theorem C8_cancel_is_noop_witness:
  "\<not> truthy (Some []) \<and> (None :: string option) \<noteq> Some ''Delete''
   \<and> createFilePrompt fs_empty (FFHTMLTreeDataProvider ''/ws'') (Some []) None ''source'' = Inr []
   \<and> deleteFilePrompt fs_empty None
        (Some (set_resourceUri (Some ''/ws'') (new_TreeItem ''ws'' Collapsed))) = Inr []"
  using C8_cancel_is_noop [of "Some []" fs_empty "FFHTMLTreeDataProvider ''/ws''" None "''source''"
      None "Some (set_resourceUri (Some ''/ws'') (new_TreeItem ''ws'' Collapsed))"]
  by (simp add: truthy_def)

section \<open>What a merge scans\<close>

lemma getFilesFromFolders_expand:
  "getFilesFromFolders fs ws roots full =
     (case forEach (scan_folder fs ws full) roots [] of
        Inl e \<Rightarrow> Inl e
      | Inr merged \<Rightarrow> collect (map (expand fs ws) (map snd merged)))"
proof -
  have e: "\<And>item. (case mergePaths item of
                None \<Rightarrow> Inr item
              | Some ps \<Rightarrow>
                  (case getFilesFromFolders fs ws (map Some ps) True of
                     Inl e \<Rightarrow> Inl e
                   | Inr cs \<Rightarrow> Inr (set_children (Some cs) (set_mergePaths None item))))
            = expand fs ws item"
    by (simp add: expand_def)
  show ?thesis
    by (subst getFilesFromFolders.simps) (simp only: e)
qed

lemma forEach_filter:
  assumes "\<And>s x. \<not> keep x \<Longrightarrow> body s x = Inr s"
  shows "forEach body (filter keep xs) s = forEach body xs s"
  by (induction xs arbitrary: s) (auto simp: assms split: sum.splits)

lemma scan_folder_missing:
  "root_missing fs ws full r \<Longrightarrow> scan_folder fs ws full merged r = Inr merged"
  by (auto simp: root_missing_def scan_folder_def root_path_def split: option.splits)

lemma forEach_all_skip:
  assumes "\<And>s x. x \<in> set xs \<Longrightarrow> body s x = Inr s"
  shows "forEach body xs s = Inr s"
  using assms by (induction xs arbitrary: s) auto

text \<open>
  C9. Roots that do not exist on the disk are skipped: the merge of a list of roots is
  the merge of the roots that are left when the missing ones are taken out, their order
  kept, with the same result or the same error; a list of missing roots alone gives the
  empty list and no error.
\<close>

theorem C9_missing_roots_skipped:
  "getFilesFromFolders fs ws roots full =
     getFilesFromFolders fs ws (filter (\<lambda>r. \<not> root_missing fs ws full r) roots) full
   \<and> ((\<forall>r\<in>set roots. root_missing fs ws full r) \<longrightarrow>
        getFilesFromFolders fs ws roots full = Inr [])"
proof
  have "forEach (scan_folder fs ws full) (filter (\<lambda>r. \<not> root_missing fs ws full r) roots) []
      = forEach (scan_folder fs ws full) roots []"
    by (rule forEach_filter) (simp add: scan_folder_missing)
  then show "getFilesFromFolders fs ws roots full =
     getFilesFromFolders fs ws (filter (\<lambda>r. \<not> root_missing fs ws full r) roots) full"
    by (simp add: getFilesFromFolders_expand)
next
  show "(\<forall>r\<in>set roots. root_missing fs ws full r) \<longrightarrow>
        getFilesFromFolders fs ws roots full = Inr []"
  proof
    assume a: "\<forall>r\<in>set roots. root_missing fs ws full r"
    have "forEach (scan_folder fs ws full) roots [] = Inr []"
      by (rule forEach_all_skip) (simp add: a scan_folder_missing)
    then show "getFilesFromFolders fs ws roots full = Inr []"
      by (simp add: getFilesFromFolders_expand)
  qed
qed

theorem C9_missing_roots_skipped_witness:
  "root_missing fs_scenario ''/ws'' False (Some ''nope'')
   \<and> getFilesFromFolders fs_scenario ''/ws'' [Some ''nope'', Some ''web-src'', Some ''res''] False
       = getFilesFromFolders fs_scenario ''/ws'' [Some ''web-src'', Some ''res''] False
   \<and> getFilesFromFolders fs_scenario ''/ws'' [Some ''nope''] False = Inr []"
proof -
  have a: "root_missing fs_scenario ''/ws'' False (Some ''nope'')" by code_simp
  have b: "\<not> root_missing fs_scenario ''/ws'' False (Some ''web-src'')" by code_simp
  have c: "\<not> root_missing fs_scenario ''/ws'' False (Some ''res'')" by code_simp
  from C9_missing_roots_skipped [of fs_scenario "''/ws''" "[Some ''nope'', Some ''web-src'', Some ''res'']" False]
    C9_missing_roots_skipped [of fs_scenario "''/ws''" "[Some ''nope'']" False] a b c
  show ?thesis by simp
qed

lemma scan_file_cases:
  assumes "scan_file fs fp merged f = Inr merged'"
  obtains
    (new) d where "statSync_isDirectory fs (path_join [fp, f]) = Inr d"
      and "map_of merged f = None"
      and "merged' = AList.update f (new_entry f (path_join [fp, f]) d) merged"
  | (push) ex ps where "statSync_isDirectory fs (path_join [fp, f]) = Inr True"
      and "map_of merged f = Some ex" and "mergePaths ex = Some ps"
      and "merged' = AList.update f (set_mergePaths (Some (ps @ [path_join [fp, f]])) ex) merged"
  | (skip) ex where "statSync_isDirectory fs (path_join [fp, f]) = Inr False"
      and "map_of merged f = Some ex" and "merged' = merged"
  using assms unfolding scan_file_def Let_def
  by (auto split: sum.splits option.splits if_splits)

lemma scan_folder_forEach:
  assumes "scan_folder fs ws full merged r = Inr merged'"
  shows "forEach (scan_file fs (root_path ws full (the r))) (scanned_files fs ws full r) merged
           = Inr merged'"
  using assms unfolding scan_folder_def scanned_files_def root_path_def Let_def
  by (auto split: option.splits if_splits sum.splits)

lemma label_set_mergePaths [simp]: "label (set_mergePaths v i) = label i"
  by (cases i) simp

lemma resourceUri_set_mergePaths [simp]: "resourceUri (set_mergePaths v i) = resourceUri i"
  by (cases i) simp

lemma resourceUri_set_children [simp]: "resourceUri (set_children v i) = resourceUri i"
  by (cases i) simp

lemma children_set_children [simp]: "children (set_children v i) = v"
  by (cases i) simp

lemma label_new_entry [simp]: "label (new_entry f p d) = f"
  by (simp add: new_entry_def new_TreeItem_def)

lemma resourceUri_new_entry [simp]: "resourceUri (new_entry f p d) = Some p"
  by (simp add: new_entry_def new_TreeItem_def)

lemma keys_ok_update:
  assumes "keys_ok merged" and "label v = k"
  shows "keys_ok (AList.update k v merged)"
proof -
  have "distinct (map fst (AList.update k v merged))"
    using assms(1) by (simp add: keys_ok_def distinct_update)
  moreover have "\<forall>e\<in>set (AList.update k v merged). label (snd e) = fst e"
    using assms by (auto simp: keys_ok_def dest!: set_update_cases)
  ultimately show ?thesis by (simp add: keys_ok_def)
qed

lemma map_of_label:
  "keys_ok merged \<Longrightarrow> map_of merged k = Some item \<Longrightarrow> label item = k"
  by (auto simp: keys_ok_def dest!: map_of_SomeD)

lemma scan_file_keys_ok:
  assumes "scan_file fs fp merged f = Inr merged'" and "keys_ok merged"
  shows "keys_ok merged'"
  using assms(1)
proof (cases rule: scan_file_cases)
  case (new d)
  then show ?thesis using assms(2) by (simp add: keys_ok_update)
next
  case (push ex ps)
  then show ?thesis using assms(2) map_of_label[OF assms(2) push(2)] by (simp add: keys_ok_update)
next
  case (skip ex)
  then show ?thesis using assms(2) by simp
qed

lemma forEach_invariant:
  assumes "\<And>s x s'. I s \<Longrightarrow> body s x = Inr s' \<Longrightarrow> I s'"
  shows "I s \<Longrightarrow> forEach body xs s = Inr s' \<Longrightarrow> I s'"
proof (induction xs arbitrary: s)
  case Nil
  then show ?case by simp
next
  case (Cons x xs)
  from Cons.prems(2) obtain mid where mid: "body s x = Inr mid"
    and rest: "forEach body xs mid = Inr s'"
    by (auto split: sum.splits)
  have "I mid" using assms Cons.prems(1) mid by blast
  then show ?case using Cons.IH rest by blast
qed

lemma scan_folder_keys_ok:
  assumes "scan_folder fs ws full merged r = Inr merged'" and "keys_ok merged"
  shows "keys_ok merged'"
  using forEach_invariant[of keys_ok "scan_file fs (root_path ws full (the r))", OF _ assms(2)
      scan_folder_forEach[OF assms(1)]] scan_file_keys_ok
  by blast

lemma scan_keys_ok:
  assumes "forEach (scan_folder fs ws full) roots [] = Inr merged"
  shows "keys_ok merged"
proof -
  have "keys_ok []" by (simp add: keys_ok_def)
  then show ?thesis
    using forEach_invariant[of keys_ok "scan_folder fs ws full", OF _ _ assms] scan_folder_keys_ok
    by blast
qed

subsection \<open>The canonical path of a name\<close>

lemma scan_file_canonical:
  assumes "scan_file fs fp merged f = Inr merged'" and "canonical k merged first"
  shows "canonical k merged'
           (case first of Some x \<Rightarrow> Some x | None \<Rightarrow> if f = k then Some fp else None)"
  using assms(1)
proof (cases rule: scan_file_cases)
  case (new d)
  then show ?thesis using assms(2)
    by (auto simp: canonical_def update_conv' split: option.splits)
next
  case (push ex ps)
  then show ?thesis using assms(2)
    by (auto simp: canonical_def update_conv' split: option.splits)
next
  case (skip ex)
  then show ?thesis using assms(2)
    by (auto simp: canonical_def split: option.splits)
qed

lemma forEach_scan_file_canonical:
  "forEach (scan_file fs fp) files merged = Inr merged' \<Longrightarrow> canonical k merged first \<Longrightarrow>
   canonical k merged'
     (case first of Some x \<Rightarrow> Some x | None \<Rightarrow> if k \<in> set files then Some fp else None)"
proof (induction files arbitrary: merged first)
  case Nil
  then show ?case by (cases first) simp_all
next
  case (Cons f files)
  from Cons.prems(1) obtain mid where mid: "scan_file fs fp merged f = Inr mid"
    and rest: "forEach (scan_file fs fp) files mid = Inr merged'"
    by (auto split: sum.splits)
  from Cons.IH[OF rest scan_file_canonical[OF mid Cons.prems(2)]]
  show ?case by (auto split: option.splits if_splits)
qed

lemma forEach_scan_folder_canonical:
  "forEach (scan_folder fs ws full) roots merged = Inr merged' \<Longrightarrow> canonical k merged first \<Longrightarrow>
   canonical k merged'
     (case first of Some x \<Rightarrow> Some x | None \<Rightarrow> first_root fs ws full roots k)"
proof (induction roots arbitrary: merged first)
  case Nil
  then show ?case by (cases first) (simp_all add: first_root_def)
next
  case (Cons r roots)
  from Cons.prems(1) obtain mid where mid: "scan_folder fs ws full merged r = Inr mid"
    and rest: "forEach (scan_folder fs ws full) roots mid = Inr merged'"
    by (auto split: sum.splits)
  from Cons.IH[OF rest forEach_scan_file_canonical[OF scan_folder_forEach[OF mid] Cons.prems(2)]]
  show ?case by (auto simp: first_root_def split: option.splits if_splits)
qed

subsection \<open>From the scan to the result\<close>

lemma collect_map:
  "collect (map g xs) = Inr ys \<Longrightarrow> list_all2 (\<lambda>x y. g x = Inr y) xs ys"
proof (induction xs arbitrary: ys)
  case Nil
  then show ?case by simp
next
  case (Cons x xs)
  then show ?case by (auto split: sum.splits)
qed

lemma expand_label: "expand fs ws i = Inr j \<Longrightarrow> label j = label i \<and> resourceUri j = resourceUri i"
  by (auto simp: expand_def split: option.splits sum.splits)

lemma merge_scan:
  assumes "getFilesFromFolders fs ws roots full = Inr items"
  obtains merged where "forEach (scan_folder fs ws full) roots [] = Inr merged"
    and "list_all2 (\<lambda>i j. expand fs ws i = Inr j) (map snd merged) items"
proof -
  have "(case forEach (scan_folder fs ws full) roots [] of
        Inl e \<Rightarrow> Inl e
      | Inr merged \<Rightarrow> collect (map (expand fs ws) (map snd merged))) = Inr items"
    using assms by (simp only: getFilesFromFolders_expand)
  then obtain merged where m: "forEach (scan_folder fs ws full) roots [] = Inr merged"
    and c: "collect (map (expand fs ws) (map snd merged)) = Inr items"
    by (cases "forEach (scan_folder fs ws full) roots []") simp_all
  from collect_map[OF c] m that show ?thesis by blast
qed

text \<open>
  C5. The physical path of every node a merge returns is the entry of the node's name in
  the first root, in the order the roots were given, whose listing holds that name.
\<close>

theorem C5_canonical_path_first_root:
  assumes "getFilesFromFolders fs ws roots full = Inr items" and "item \<in> set items"
  shows "\<exists>fp. first_root fs ws full roots (label item) = Some fp
             \<and> resourceUri item = Some (path_join [fp, label item])"
proof -
  from assms(1) obtain merged where m: "forEach (scan_folder fs ws full) roots [] = Inr merged"
    and l: "list_all2 (\<lambda>i j. expand fs ws i = Inr j) (map snd merged) items"
    by (rule merge_scan)
  from assms(2) obtain n where n: "n < length items" and itn: "items ! n = item"
    by (auto simp: in_set_conv_nth)
  have len: "length (map snd merged) = length items" using l by (rule list_all2_lengthD)
  define i where "i = map snd merged ! n"
  have e: "expand fs ws i = Inr item"
    using list_all2_nthD2[OF l n] itn by (simp add: i_def)
  have i: "i \<in> set (map snd merged)"
    unfolding i_def using n len by (intro nth_mem) simp
  from i obtain k where k: "(k, i) \<in> set merged" by auto
  have ok: "keys_ok merged" using m by (rule scan_keys_ok)
  then have mo: "map_of merged k = Some i" using k by (simp add: keys_ok_def)
  have lk: "label i = k" using ok mo by (rule map_of_label)
  have "canonical k [] None" by (simp add: canonical_def)
  from forEach_scan_folder_canonical[OF m this]
  obtain fp where "first_root fs ws full roots k = Some fp"
    and "resourceUri i = Some (path_join [fp, k])"
    using mo by (auto simp: canonical_def)
  then show ?thesis using expand_label[OF e] lk by simp
qed

theorem C5_canonical_path_first_root_witness:
  "getFilesFromFolders fs_scenario ''/ws'' [Some ''web-src'', Some ''res''] False = Inr [scenario_a]
   \<and> scenario_a \<in> set [scenario_a]
   \<and> first_root fs_scenario ''/ws'' False [Some ''web-src'', Some ''res''] (label scenario_a)
        = Some ''/ws/web-src''
   \<and> resourceUri scenario_a = Some (path_join [''/ws/web-src'', label scenario_a])"
proof -
  have m: "scenario_a \<in> set [scenario_a]" by simp
  have f: "first_root fs_scenario ''/ws'' False [Some ''web-src'', Some ''res''] (label scenario_a)
        = Some ''/ws/web-src''"
    by code_simp
  from C5_canonical_path_first_root [OF scenario_merge m] f scenario_merge show ?thesis by simp
qed

subsection \<open>The directories a name accumulates\<close>

lemma mergePaths_new_entry_dir [simp]: "mergePaths (new_entry f p True) = Some [p]"
  by (simp add: mergePaths_new_entry)

lemma mergePaths_new_entry_file [simp]: "mergePaths (new_entry f p False) = None"
  by (simp add: mergePaths_new_entry)

lemma scan_file_accumulated:
  assumes "scan_file fs fp merged f = Inr merged'" and "accumulated n merged paths"
  shows "accumulated n merged'
           (paths @ (if f = n \<and> statSync_isDirectory fs (path_join [fp, f]) = Inr True
                     then [path_join [fp, f]] else []))"
  using assms(1)
proof (cases rule: scan_file_cases)
  case (new d)
  then show ?thesis using assms(2)
    by (cases d) (auto simp: accumulated_def update_conv' split: option.splits)
next
  case (push ex ps)
  then show ?thesis using assms(2)
    by (auto simp: accumulated_def update_conv' split: option.splits if_splits)
next
  case (skip ex)
  then show ?thesis using assms(2)
    by (auto simp: accumulated_def split: option.splits)
qed

lemma forEach_scan_file_accumulated:
  "forEach (scan_file fs fp) files merged = Inr merged' \<Longrightarrow> accumulated n merged paths \<Longrightarrow>
   accumulated n merged'
     (paths @ concat (map (\<lambda>f. if f = n \<and> statSync_isDirectory fs (path_join [fp, f]) = Inr True
                                 then [path_join [fp, f]] else []) files))"
proof (induction files arbitrary: merged paths)
  case Nil
  then show ?case by simp
next
  case (Cons f files)
  from Cons.prems(1) obtain mid where mid: "scan_file fs fp merged f = Inr mid"
    and rest: "forEach (scan_file fs fp) files mid = Inr merged'"
    by (auto split: sum.splits)
  from Cons.IH[OF rest scan_file_accumulated[OF mid Cons.prems(2)]]
  show ?case by simp
qed

lemma forEach_scan_folder_accumulated:
  "forEach (scan_folder fs ws full) roots merged = Inr merged' \<Longrightarrow> accumulated n merged paths \<Longrightarrow>
   accumulated n merged' (paths @ contributing fs ws full roots n)"
proof (induction roots arbitrary: merged paths)
  case Nil
  then show ?case by (simp add: contributing_def)
next
  case (Cons r roots)
  from Cons.prems(1) obtain mid where mid: "scan_folder fs ws full merged r = Inr mid"
    and rest: "forEach (scan_folder fs ws full) roots mid = Inr merged'"
    by (auto split: sum.splits)
  from Cons.IH[OF rest forEach_scan_file_accumulated[OF scan_folder_forEach[OF mid] Cons.prems(2)]]
  show ?case by (simp add: contributing_def)
qed

lemma filter_label_unique:
  "distinct (map label ys) \<Longrightarrow> y \<in> set ys \<Longrightarrow> filter (\<lambda>i. label i = label y) ys = [y]"
proof (induction ys)
  case Nil
  then show ?case by simp
next
  case (Cons a ys)
  show ?case
  proof (cases "a = y")
    case True
    have "label y \<notin> label ` set ys" using Cons.prems(1) True by simp
    then have "\<forall>x\<in>set ys. label x \<noteq> label y" by (metis imageI)
    then have "filter (\<lambda>i. label i = label y) ys = []"
      by (simp add: filter_empty_conv)
    then show ?thesis using True by simp
  next
    case False
    then have "y \<in> set ys" using Cons.prems(2) by simp
    moreover have "label a \<noteq> label y" using Cons.prems(1) calculation by (metis distinct.simps(2) imageI list.simps(9) set_map)
    ultimately show ?thesis using Cons by simp
  qed
qed

lemma expanded_labels:
  "list_all2 (\<lambda>i j. expand fs ws i = Inr j) xs ys \<Longrightarrow> map label ys = map label xs"
  by (induction rule: list_all2_induct) (auto dest: expand_label)

text \<open>
  C1, as the code has it. When the merge returns, two or more of the roots hold a
  directory named \<open>n\<close>, and \<open>n\<close> is not a file in a root given before them, the result
  has exactly one node labelled \<open>n\<close>, and its children are the merge of all those
  directories, in the order of the roots. (Where \<open>n\<close> is a file in an earlier root, the
  file is the one that is seen first.)
\<close>

theorem C1_merged_directory:
  assumes ok: "getFilesFromFolders fs ws roots full = Inr items"
    and k: "2 \<le> length (contributing fs ws full roots n)"
    and d: "first_seen_directory fs ws full roots n"
  shows "\<exists>item cs. filter (\<lambda>i. label i = n) items = [item]
           \<and> getFilesFromFolders fs ws (map Some (contributing fs ws full roots n)) True = Inr cs
           \<and> children item = Some cs"
proof -
  let ?ps = "contributing fs ws full roots n"
  from ok obtain merged where m: "forEach (scan_folder fs ws full) roots [] = Inr merged"
    and l: "list_all2 (\<lambda>i j. expand fs ws i = Inr j) (map snd merged) items"
    by (rule merge_scan)
  have kok: "keys_ok merged" using m by (rule scan_keys_ok)
  have "accumulated n [] []" by (simp add: accumulated_def)
  from forEach_scan_folder_accumulated[OF m this]
  have acc: "accumulated n merged ?ps" by simp
  have ne: "?ps \<noteq> []" using k by auto
  then obtain i where mo: "map_of merged n = Some i" and mp: "mergePaths i = Some ?ps"
    using acc by (auto simp: accumulated_def split: option.splits)
  have li: "label i = n" using kok mo by (rule map_of_label)
  have "(n, i) \<in> set merged" using mo by (rule map_of_SomeD)
  then have "i \<in> set (map snd merged)" by force
  then obtain j where j: "j < length (map snd merged)" and ij: "map snd merged ! j = i"
    by (auto simp: in_set_conv_nth)
  have len: "length (map snd merged) = length items" using l by (rule list_all2_lengthD)
  have e: "expand fs ws i = Inr (items ! j)"
    using list_all2_nthD[OF l j] ij by simp
  then obtain cs where cs: "getFilesFromFolders fs ws (map Some ?ps) True = Inr cs"
    and it: "items ! j = set_children (Some cs) (set_mergePaths None i)"
    using mp by (auto simp: expand_def split: sum.splits)
  have lab: "map label items = map fst merged"
    using expanded_labels[OF l] kok by (simp add: keys_ok_def)
  then have d: "distinct (map label items)" using kok by (simp add: keys_ok_def)
  have mem: "items ! j \<in> set items" using j len by simp
  have "label (items ! j) = n" using it li by simp
  then have "filter (\<lambda>i. label i = n) items = [items ! j]"
    using filter_label_unique[OF d mem] by simp
  then show ?thesis using cs it by auto
qed

theorem C1_merged_directory_witness:
  "getFilesFromFolders fs_scenario ''/ws'' [Some ''web-src'', Some ''res''] False = Inr [scenario_a]
   \<and> 2 \<le> length (contributing fs_scenario ''/ws'' False [Some ''web-src'', Some ''res''] ''a'')
   \<and> first_seen_directory fs_scenario ''/ws'' False [Some ''web-src'', Some ''res''] ''a''
   \<and> (\<exists>item cs. filter (\<lambda>i. label i = ''a'') [scenario_a] = [item]
         \<and> getFilesFromFolders fs_scenario ''/ws''
              (map Some (contributing fs_scenario ''/ws'' False [Some ''web-src'', Some ''res''] ''a''))
              True = Inr cs
         \<and> children item = Some cs)"
proof -
  have k: "2 \<le> length (contributing fs_scenario ''/ws'' False [Some ''web-src'', Some ''res''] ''a'')"
    by (simp add: scenario_contributing)
  have d: "first_seen_directory fs_scenario ''/ws'' False [Some ''web-src'', Some ''res''] ''a''"
    by code_simp
  from C1_merged_directory [OF scenario_merge k d] scenario_merge k d show ?thesis by blast
qed

text \<open>
  C1 does not hold of every list of roots and every name: here \<open>n\<close> is a directory in
  two of the three roots, and the merge returns no node \<open>n\<close> with the merge of the two as
  its children. With \<open>web-src\<close> first, \<open>n\<close> is a file in an earlier root, the file is seen
  first, and the merge, as it is written, ends in a \<open>TypeError\<close>. With \<open>plain\<close> first,
  \<open>n\<close> is first seen as a directory, but the root \<open>plain\<close> is a regular file and the
  merge ends in the error of listing it.
\<close>

theorem C1_counterexample:
  "contributing fs_clash ''/ws'' False [Some ''web-src'', Some ''res'', Some ''more''] ''n''
     = [''/ws/res/n'', ''/ws/more/n'']
   \<and> \<not> first_seen_directory fs_clash ''/ws'' False
         [Some ''web-src'', Some ''res'', Some ''more''] ''n''
   \<and> getFilesFromFolders fs_clash ''/ws'' [Some ''web-src'', Some ''res'', Some ''more''] False
     = Inl TypeError
   \<and> contributing fs_clash ''/ws'' False [Some ''plain'', Some ''res'', Some ''more''] ''n''
     = [''/ws/res/n'', ''/ws/more/n'']
   \<and> first_seen_directory fs_clash ''/ws'' False
         [Some ''plain'', Some ''res'', Some ''more''] ''n''
   \<and> getFilesFromFolders fs_clash ''/ws'' [Some ''plain'', Some ''res'', Some ''more''] False
     = Inl ENOTDIR"
  by code_simp

text \<open>
  C2. A name that is a file in an earlier root and a directory in a later root: the
  merge does not return the file's node; it ends in a \<open>TypeError\<close>, raised where the later
  directory is pushed onto the merge paths of the file's node, which has none.
\<close>

theorem C2_file_then_directory_raises:
  "getFilesFromFolders fs_clash ''/ws'' [Some ''web-src'', Some ''res''] False = Inl TypeError"
  by code_simp

section \<open>More facts about paths\<close>

lemma normalizeString_False_valid: "list_all valid_name (normalizeString False (split_path p))"
  unfolding normalizeString_def
  by (intro foldl_norm_False_valid) (auto dest: split_segs_noslash)

lemma normalizeString_True_ok: "list_all seg_ok (normalizeString True (split_path p))"
  unfolding normalizeString_def
  by (intro foldl_norm_True_nodot) (auto dest: split_segs_noslash)

lemma normalizeString_ok: "list_all seg_ok (normalizeString b (split_path p))"
proof (cases b)
  case True
  then show ?thesis by (simp add: normalizeString_True_ok)
next
  case False
  have "list_all valid_name (normalizeString False (split_path p))"
    by (rule normalizeString_False_valid)
  then show ?thesis using False by (auto simp: list_all_iff valid_name_def seg_ok_def)
qed

lemma join_segs_eq_Nil: "list_all seg_ok xs \<Longrightarrow> (join_segs xs = []) = (xs = [])"
  by (induction xs rule: join_segs.induct) (auto simp: seg_ok_def)

lemma split_join_ok: "list_all seg_ok xs \<Longrightarrow> xs \<noteq> [] \<Longrightarrow> split_path (join_segs xs) = xs"
  by (rule split_join) (auto simp: list_all_iff seg_ok_def)

lemma split_path_snoc_slash: "split_path (a @ [slash]) = split_path a @ [[]]"
  using split_path_append[of a "[]"] by simp

lemma foldl_norm_Nil: "foldl (norm_step b) C (xs @ [[]]) = foldl (norm_step b) C xs"
  by (simp add: norm_step_def)

lemma foldl_norm_Nil_Cons: "foldl (norm_step b) C ([] # xs) = foldl (norm_step b) C xs"
  by (simp add: norm_step_def)

lemma join_segs_not_abs:
  assumes "list_all seg_ok xs" and "xs \<noteq> []"
  shows "\<not> isAbsolute (join_segs xs @ t)"
proof -
  obtain x rest where x: "xs = x # rest" using assms(2) by (cases xs) auto
  then have "seg_ok x" using assms(1) by simp
  then obtain c cs where c: "x = c # cs" and "c \<noteq> slash"
    by (cases x) (auto simp: seg_ok_def)
  then have "\<exists>u. join_segs xs = c # u" using x by (cases rest) auto
  then show ?thesis using \<open>c \<noteq> slash\<close> by (auto simp: isAbsolute_Cons)
qed

text \<open>Resolving a normalised path gives what resolving the path gives.\<close>

lemma resolve_normalize:
  assumes "q \<noteq> []"
  shows "resolve_segs c (path_normalize q) = resolve_segs c q"
proof (cases "isAbsolute q")
  case True
  define N where "N = normalizeString False (split_path q)"
  have v: "list_all valid_name N" unfolding N_def by (rule normalizeString_False_valid)
  then have ok: "list_all seg_ok N" by (auto simp: list_all_iff valid_name_def seg_ok_def)
  have id: "normalizeString False N = N"
    using v foldl_norm_valid[of N False "[]"] by (simp add: list_all_iff normalizeString_def)
  have r: "resolve_segs c q = N" using True by (simp add: resolve_segs_def N_def)
  show ?thesis
  proof (cases "N = []")
    case e: True
    then have "path_normalize q = [slash]"
      using True assms by (simp add: path_normalize_def slash_def N_def)
    then show ?thesis using e r
      by (simp add: resolve_segs_def isAbsolute_Cons normalizeString_def norm_step_def)
  next
    case ne: False
    then have jne: "join_segs N \<noteq> []" using ok by (simp add: join_segs_eq_Nil)
    have sj: "split_path (join_segs N) = N" using ok ne by (rule split_join_ok)
    show ?thesis
    proof (cases "last q = slash")
      case t: True
      have "path_normalize q = ''/'' @ join_segs N @ ''/''"
        using True assms jne t unfolding N_def by (simp add: path_normalize_def)
      then have "path_normalize q = slash # (join_segs N @ [slash])"
        by (simp add: slash_def)
      then have "resolve_segs c (path_normalize q)
                 = normalizeString False ([] # split_path (join_segs N @ [slash]))"
        by (simp add: resolve_segs_def isAbsolute_Cons)
      also have "\<dots> = normalizeString False N"
        by (simp add: normalizeString_Nil_Cons split_path_snoc_slash sj normalizeString_snoc norm_step_def)
      finally show ?thesis using id r by simp
    next
      case t: False
      have "path_normalize q = ''/'' @ join_segs N"
        using True assms jne t unfolding N_def by (simp add: path_normalize_def)
      then have "path_normalize q = slash # join_segs N"
        by (simp add: slash_def)
      then have "resolve_segs c (path_normalize q)
                 = normalizeString False ([] # split_path (join_segs N))"
        by (simp add: resolve_segs_def isAbsolute_Cons)
      also have "\<dots> = normalizeString False N"
        by (simp add: normalizeString_Nil_Cons sj)
      finally show ?thesis using id r by simp
    qed
  qed
next
  case False
  define M where "M = normalizeString True (split_path q)"
  define C where "C = foldl (norm_step False) [] (split_path c)"
  have ok: "list_all seg_ok M" unfolding M_def by (rule normalizeString_True_ok)
  have r: "resolve_segs c q = foldl (norm_step False) C (split_path q)"
    using False by (simp add: resolve_segs_def normalizeString_def C_def)
  have rel: "foldl (norm_step False) C M = foldl (norm_step False) C (split_path q)"
    unfolding M_def by (rule foldl_norm_rel) (auto dest: split_segs_noslash)
  have rs: "\<And>t. \<not> isAbsolute t \<Longrightarrow>
      resolve_segs c t = foldl (norm_step False) C (split_path t)"
    by (simp add: resolve_segs_def normalizeString_def C_def)
  show ?thesis
  proof (cases "M = []")
    case e: True
    then have "path_normalize q = ''.'' \<or> path_normalize q = ''./''"
      using False assms unfolding M_def by (simp add: path_normalize_def)
    then have "resolve_segs c (path_normalize q) = C"
      by (auto simp: resolve_segs_def isAbsolute_def normalizeString_def norm_step_def slash_def C_def)
    then show ?thesis using r rel e by simp
  next
    case ne: False
    then have jne: "join_segs M \<noteq> []" using ok by (simp add: join_segs_eq_Nil)
    have sj: "split_path (join_segs M) = M" using ok ne by (rule split_join_ok)
    have na: "\<And>t. \<not> isAbsolute (join_segs M @ t)" using ok ne by (rule join_segs_not_abs)
    show ?thesis
    proof (cases "last q = slash")
      case t: True
      have "path_normalize q = join_segs M @ ''/''"
        using False assms jne t unfolding M_def by (simp add: path_normalize_def)
      then have pn: "path_normalize q = join_segs M @ [slash]"
        by (simp add: slash_def)
      have "resolve_segs c (path_normalize q)
            = foldl (norm_step False) C (split_path (join_segs M @ [slash]))"
        unfolding pn using na by (rule rs)
      also have "\<dots> = foldl (norm_step False) C M"
        by (simp add: split_path_snoc_slash sj norm_step_def)
      finally show ?thesis using r rel by simp
    next
      case t: False
      have pn: "path_normalize q = join_segs M"
        using False assms jne t unfolding M_def by (simp add: path_normalize_def)
      have "resolve_segs c (path_normalize q)
            = foldl (norm_step False) C (split_path (join_segs M))"
        unfolding pn using na[of "[]"] by (intro rs) simp
      also have "\<dots> = foldl (norm_step False) C M"
        by (simp add: sj)
      finally show ?thesis using r rel by simp
    qed
  qed
qed

lemma path_join_stem:
  assumes f: "valid_name f" and p: "p \<noteq> []"
  shows "path_join [p, f] = join_stem p @ f"
proof -
  have fne: "f \<noteq> []" and fns: "slash \<notin> set f" using f by (auto simp: valid_name_def)
  let ?q = "p @ slash # f"
  let ?N = "normalizeString (\<not> isAbsolute p) (split_path p)"
  have pj: "path_join [p, f] = path_normalize ?q"
    using p fne by (simp add: path_join_def)
  have absq: "isAbsolute ?q = isAbsolute p" using p by (cases p) (auto simp: isAbsolute_def)
  have "last ?q = last f" using fne by simp
  moreover have "last f \<in> set f" using fne by simp
  ultimately have lastq: "last ?q \<noteq> slash" using fns by auto
  have splitq: "split_path ?q = split_path p @ [f]"
    using fns by (simp add: split_path_append split_path_noslash)
  have nq: "normalizeString (\<not> isAbsolute p) (split_path ?q) = ?N @ [f]"
    using f by (simp add: splitq normalizeString_snoc norm_step_valid)
  have ok: "list_all seg_ok ?N" by (rule normalizeString_ok)
  have "seg_ok f" using f by (simp add: valid_name_def seg_ok_def)
  then have "list_all seg_ok (?N @ [f])" using ok by simp
  then have js_ne: "join_segs (?N @ [f]) \<noteq> []" by (simp add: join_segs_eq_Nil)
  have "path_normalize ?q = (if isAbsolute p then ''/'' else []) @ join_segs (?N @ [f])"
    using js_ne lastq by (simp add: path_normalize_def absq nq Let_def)
  then have norm: "path_normalize ?q = (if isAbsolute p then [slash] else []) @ join_segs (?N @ [f])"
    by (simp add: slash_def)
  have "join_segs (?N @ [f]) = (if ?N = [] then [] else join_segs ?N @ [slash]) @ f"
    by (simp add: join_segs_snoc)
  then show ?thesis by (simp add: pj norm join_stem_def Let_def)
qed

lemma path_join_empty_ws:
  assumes f: "valid_name f"
  shows "path_join [[], f] = f"
proof -
  have fne: "f \<noteq> []" and fns: "slash \<notin> set f" using f by (auto simp: valid_name_def)
  have "last f \<in> set f" "hd f \<in> set f" using fne by simp_all
  then have l: "last f \<noteq> slash" and h: "hd f \<noteq> slash" using fns by auto
  have na: "\<not> isAbsolute f" using h fne by (cases f) (auto simp: isAbsolute_def)
  have n: "normalizeString True (split_path f) = [f]"
    using f fns by (simp add: split_path_noslash normalizeString_def norm_step_valid)
  show ?thesis using fne l na n by (simp add: path_join_def path_normalize_def)
qed

lemma path_join_name:
  "\<exists>stem. \<forall>f. valid_name f \<longrightarrow> path_join [ws, f] = stem @ f"
proof (cases "ws = []")
  case True
  then have "\<forall>f. valid_name f \<longrightarrow> path_join [ws, f] = [] @ f" by (simp add: path_join_empty_ws)
  then show ?thesis by blast
next
  case False
  then have "\<forall>f. valid_name f \<longrightarrow> path_join [ws, f] = join_stem ws @ f"
    by (simp add: path_join_stem)
  then show ?thesis by blast
qed

lemma category_names_valid:
  "valid_name ''web-src''" "valid_name ''res''" "valid_name ''include''"
  by (simp_all add: valid_name_def slash_def)

lemma category_roots:
  obtains stem where "sourceDirectory (FFHTMLTreeDataProvider ws) = stem @ ''web-src''"
    and "resourcesDirectory (FFHTMLTreeDataProvider ws) = stem @ ''res''"
    and "includeDirectory (FFHTMLTreeDataProvider ws) = stem @ ''include''"
  using path_join_name[of ws] category_names_valid
  by (auto simp: FFHTMLTreeDataProvider_def)

lemma startsWith_both:
  assumes "startsWith p (stem @ a)" and "startsWith p (stem @ b)"
  shows "prefix a b \<or> prefix b a"
proof -
  have "prefix (stem @ a) p" "prefix (stem @ b) p" using assms by (simp_all add: startsWith_def)
  then have "prefix (stem @ a) (stem @ b) \<or> prefix (stem @ b) (stem @ a)"
    by (rule prefix_same_cases)
  then show ?thesis by simp
qed

text \<open>A path that begins with one category root is classified under that root.\<close>

lemma elementTypeDir_unique:
  assumes "tp = FFHTMLTreeDataProvider ws"
    and "root \<in> {sourceDirectory tp, resourcesDirectory tp, includeDirectory tp}"
    and "startsWith p root"
  shows "elementTypeDir_of tp p = Some root"
proof -
  obtain stem where s: "sourceDirectory tp = stem @ ''web-src''"
    and r: "resourcesDirectory tp = stem @ ''res''"
    and i: "includeDirectory tp = stem @ ''include''"
    using category_roots[of ws] assms(1) by metis
  have sr: "\<not> (startsWith p (stem @ ''web-src'') \<and> startsWith p (stem @ ''res''))"
    using startsWith_both[of p stem "''web-src''" "''res''"] by auto
  have si: "\<not> (startsWith p (stem @ ''web-src'') \<and> startsWith p (stem @ ''include''))"
    using startsWith_both[of p stem "''web-src''" "''include''"] by auto
  have ri: "\<not> (startsWith p (stem @ ''res'') \<and> startsWith p (stem @ ''include''))"
    using startsWith_both[of p stem "''res''" "''include''"] by auto
  show ?thesis
    using assms(2,3) sr si ri unfolding elementTypeDir_of_def s r i by auto
qed

lemma category_root_nonempty:
  assumes "tp = FFHTMLTreeDataProvider ws"
    and "root \<in> {sourceDirectory tp, resourcesDirectory tp, includeDirectory tp}"
  shows "root \<noteq> []"
proof -
  have "sourceDirectory tp \<noteq> []" "resourcesDirectory tp \<noteq> []" "includeDirectory tp \<noteq> []"
    using assms(1) by (simp_all add: FFHTMLTreeDataProvider_def path_join_nonempty)
  then show ?thesis using assms(2) by auto
qed

lemma targetDir_classified:
  assumes "resourceUri el = Some p" and "statSync_isDirectory fs p = Inr isDir"
    and "elementTypeDir_of tp p = Some root" and "root \<noteq> []" and "baseDir_of tp type = Some b"
  shows "targetDir_of fs tp (Some el) type =
     Inr (Some (path_join [b, path_relative (cwd fs) root (if isDir then p else path_dirname p)]))"
  using assms by (simp add: targetDir_of_def truthy_def)

subsection \<open>Climbing out of a directory and back in\<close>

lemma norm_step_dotdot:
  "list_all valid_name xs \<Longrightarrow> norm_step False xs ''..'' = butlast xs"
proof (cases "xs = []")
  case True
  then show ?thesis by (simp add: norm_step_def)
next
  case False
  assume "list_all valid_name xs"
  then have "valid_name (last xs)" using False by (simp add: list_all_iff)
  then have "last xs \<noteq> ''..''" by (auto simp: valid_name_def)
  then show ?thesis using False by (simp add: norm_step_def)
qed

lemma list_all_butlast: "list_all P xs \<Longrightarrow> list_all P (butlast xs)"
  by (auto simp: list_all_iff dest: in_set_butlastD)

lemma foldl_dotdots:
  "list_all valid_name xs \<Longrightarrow>
   foldl (norm_step False) xs (replicate m ''..'') = take (length xs - m) xs"
proof (induction m arbitrary: xs)
  case 0
  then show ?case by simp
next
  case (Suc m)
  have "foldl (norm_step False) xs (replicate (Suc m) ''..'')
        = foldl (norm_step False) (butlast xs) (replicate m ''..'')"
    using Suc.prems by (simp add: norm_step_dotdot)
  also have "\<dots> = take (length (butlast xs) - m) (butlast xs)"
    using Suc.prems by (intro Suc.IH list_all_butlast)
  also have "\<dots> = take (length xs - Suc m) xs"
    by (simp add: butlast_conv_take)
  finally show ?case .
qed

lemma resolve_join_two:
  assumes "b \<noteq> []" and "rel \<noteq> []"
  shows "resolve_segs c (path_join [b, rel])
         = foldl (norm_step False) (resolve_segs c b) (split_path rel)"
proof -
  have pj: "path_join [b, rel] = path_normalize (b @ slash # rel)"
    using assms by (simp add: path_join_def)
  have ab: "isAbsolute (b @ slash # rel) = isAbsolute b"
    using assms(1) by (cases b) (auto simp: isAbsolute_def)
  have "resolve_segs c (path_join [b, rel]) = resolve_segs c (b @ slash # rel)"
    unfolding pj by (rule resolve_normalize) simp
  also have "\<dots> = foldl (norm_step False) (resolve_segs c b) (split_path rel)"
    by (simp add: resolve_segs_def ab split_path_append normalizeString_def)
  finally show ?thesis .
qed

lemma prefix_take: "prefix a b \<Longrightarrow> a = take (length a) b"
  by (metis append_eq_conv_conj prefix_def)

lemma lcp_take:
  "longest_common_prefix xs ys = take (length (longest_common_prefix xs ys)) xs"
  "longest_common_prefix xs ys = take (length (longest_common_prefix xs ys)) ys"
  by (rule prefix_take, rule longest_common_prefix_prefix1)
     (rule prefix_take, rule longest_common_prefix_prefix2)

lemma lcp_short:
  assumes "\<not> prefix xs ys"
  shows "length (longest_common_prefix xs ys) < length xs"
proof (rule ccontr)
  assume "\<not> length (longest_common_prefix xs ys) < length xs"
  moreover have "prefix (longest_common_prefix xs ys) xs" by (rule longest_common_prefix_prefix1)
  ultimately have "longest_common_prefix xs ys = xs"
    by (metis not_less take_all prefix_take)
  then have "prefix xs ys" using longest_common_prefix_prefix2[of xs ys] by simp
  then show False using assms by simp
qed

text \<open>
  From a directory \<open>w/x\<close> to a place outside it, replayed from the sibling \<open>w/y\<close>: the
  place itself.
\<close>

lemma mirror_outside:
  assumes fr: "resolve_segs c from = w @ [x]" and base: "resolve_segs c b = w @ [y]"
    and out: "\<not> prefix (resolve_segs c from) (resolve_segs c to)" and b: "b \<noteq> []"
  shows "resolve_segs c (path_join [b, path_relative c from to]) = resolve_segs c to"
proof -
  define t where "t = resolve_segs c to"
  define k where "k = length (longest_common_prefix (w @ [x]) t)"
  have tv: "list_all valid_name t" unfolding t_def by (rule resolve_segs_valid)
  have wv: "list_all valid_name (w @ [y])" using resolve_segs_valid[of c b] base by simp
  have out': "\<not> prefix (w @ [x]) t" using out fr by (simp add: t_def)
  have klt: "k < length (w @ [x])" unfolding k_def using out' by (rule lcp_short)
  then have kle: "k \<le> length w" by simp
  have tk: "take k w = take k t"
  proof -
    have "take k (w @ [x]) = take k t" unfolding k_def using lcp_take[of "w @ [x]" t] by simp
    then show ?thesis using kle by simp
  qed
  have ne: "from \<noteq> to" using out by auto
  have ne2: "resolve_segs c from \<noteq> resolve_segs c to" using out by auto
  define segs where "segs = replicate (length (w @ [x]) - k) ''..'' @ drop k t"
  have rel: "path_relative c from to = join_segs segs"
    using ne ne2 by (simp add: path_relative_def Let_def fr t_def[symmetric] k_def segs_def)
  have segs_ne: "segs \<noteq> []" using klt by (simp add: segs_def)
  have dd: "seg_ok ''..''" by (simp add: seg_ok_def slash_def)
  have "list_all seg_ok (drop k t)"
    using tv by (auto simp: list_all_iff seg_ok_def valid_name_def dest: in_set_dropD)
  then have segs_ok: "list_all seg_ok segs" using dd by (auto simp: segs_def list_all_iff)
  have relne: "path_relative c from to \<noteq> []"
    unfolding rel using segs_ok segs_ne by (simp add: join_segs_eq_Nil)
  have sp: "split_path (path_relative c from to) = segs"
    unfolding rel using segs_ok segs_ne by (rule split_join_ok)
  have "resolve_segs c (path_join [b, path_relative c from to])
        = foldl (norm_step False) (w @ [y]) segs"
    using resolve_join_two[OF b relne] by (simp add: sp base)
  also have "\<dots> = foldl (norm_step False)
        (foldl (norm_step False) (w @ [y]) (replicate (length (w @ [x]) - k) ''..'')) (drop k t)"
    by (simp add: segs_def)
  also have "foldl (norm_step False) (w @ [y]) (replicate (length (w @ [x]) - k) ''..'')
        = take (length (w @ [y]) - (length (w @ [x]) - k)) (w @ [y])"
    using wv by (rule foldl_dotdots)
  also have "\<dots> = take k w" using kle by simp
  also have "foldl (norm_step False) (take k w) (drop k t) = take k w @ drop k t"
    using tv by (intro foldl_norm_valid) (auto simp: list_all_iff dest: in_set_dropD)
  also have "\<dots> = t" by (simp add: tk)
  finally show ?thesis by (simp add: t_def)
qed

lemma resolve_join_any:
  assumes f: "valid_name f"
  shows "resolve_segs c (path_join [ws, f]) = resolve_segs c ws @ [f]"
proof (cases "ws = []")
  case False
  then show ?thesis using f by (simp add: resolve_join)
next
  case True
  have fne: "f \<noteq> []" and fns: "slash \<notin> set f" using f by (auto simp: valid_name_def)
  have "hd f \<in> set f" using fne by simp
  then have "hd f \<noteq> slash" using fns by auto
  then have na: "\<not> isAbsolute f" using fne by (cases f) (auto simp: isAbsolute_def)
  have "resolve_segs c (path_join [ws, f]) = normalizeString False (split_path c @ [f])"
    using True f na fns by (simp add: path_join_empty_ws resolve_segs_def split_path_noslash)
  also have "\<dots> = normalizeString False (split_path c) @ [f]"
    using f by (simp add: normalizeString_snoc norm_step_valid)
  also have "normalizeString False (split_path c) = resolve_segs c ws"
    using True by (simp add: resolve_segs_def isAbsolute_def normalizeString_snoc norm_step_def)
  finally show ?thesis .
qed

lemma provider_roots:
  assumes "tp = FFHTMLTreeDataProvider ws"
    and "root \<in> {sourceDirectory tp, resourcesDirectory tp, includeDirectory tp}"
  shows "\<exists>x. resolve_segs c root = resolve_segs c ws @ [x]"
proof -
  have "root = path_join [ws, ''web-src''] \<or> root = path_join [ws, ''res'']
        \<or> root = path_join [ws, ''include'']"
    using assms by (auto simp: FFHTMLTreeDataProvider_def)
  then show ?thesis
    using resolve_join_any[OF category_names_valid(1), of c ws]
      resolve_join_any[OF category_names_valid(2), of c ws]
      resolve_join_any[OF category_names_valid(3), of c ws]
    by auto
qed

lemma baseDir_root:
  assumes "baseDir_of tp type = Some b"
  shows "b \<in> {sourceDirectory tp, resourcesDirectory tp, includeDirectory tp}"
  using assms by (auto simp: baseDir_of_def split: if_splits)

text \<open>
  From a directory \<open>w/x\<close> to a place inside it, replayed from another directory: the same
  way down from there.
\<close>

lemma mirror_inside:
  assumes ins: "inside_dir c from to" and b: "b \<noteq> []"
  shows "resolve_segs c (path_join [b, path_relative c from to])
         = resolve_segs c b @ drop (length (resolve_segs c from)) (resolve_segs c to)"
proof -
  define f where "f = resolve_segs c from"
  define t where "t = resolve_segs c to"
  have p: "prefix f t" using ins by (simp add: inside_dir_def f_def t_def)
  have tv: "list_all valid_name t" unfolding t_def by (rule resolve_segs_valid)
  show ?thesis
  proof (cases "f = t")
    case True
    then have "path_relative c from to = []"
      by (simp add: path_relative_def f_def t_def)
    moreover have "path_join [b, []] = path_normalize b" using b by (simp add: path_join_def)
    ultimately show ?thesis
      using True resolve_normalize[OF b, of c] by (simp add: f_def t_def)
  next
    case False
    then have ne: "from \<noteq> to" by (auto simp: f_def t_def)
    have lcp: "longest_common_prefix f t = f"
      using p by (metis longest_common_prefix_max_prefix longest_common_prefix_prefix1
          prefix_order.antisym prefix_order.refl)
    have rel: "path_relative c from to = join_segs (drop (length f) t)"
      using ne False by (simp add: path_relative_def Let_def f_def[symmetric] t_def[symmetric] lcp)
    have dne: "drop (length f) t \<noteq> []"
      using p False by (metis append_eq_conv_conj prefix_def self_append_conv)
    have dv: "list_all valid_name (drop (length f) t)"
      using tv by (auto simp: list_all_iff dest: in_set_dropD)
    then have dok: "list_all seg_ok (drop (length f) t)"
      by (auto simp: list_all_iff seg_ok_def valid_name_def)
    have relne: "path_relative c from to \<noteq> []"
      unfolding rel using dok dne by (simp add: join_segs_eq_Nil)
    have sp: "split_path (path_relative c from to) = drop (length f) t"
      unfolding rel using dok dne by (rule split_join_ok)
    have "resolve_segs c (path_join [b, path_relative c from to])
          = foldl (norm_step False) (resolve_segs c b) (drop (length f) t)"
      using resolve_join_two[OF b relne] by (simp add: sp)
    also have "\<dots> = resolve_segs c b @ drop (length f) t"
      using dv by (intro foldl_norm_valid) (simp add: list_all_iff)
    finally show ?thesis by (simp add: f_def t_def)
  qed
qed

section \<open>The target of a create command\<close>

text \<open>
  C3. A node is selected whose path begins with one of the three category roots. The
  directory computed for the new file is the requested category's root (\<open>web-src\<close> for a
  source file, \<open>res\<close> for a resource file, \<open>include\<close> for an include file, each under the
  workspace root) joined with the path, relative to the node's own category root, of the
  node (a directory) or of its parent directory (a file). On the disk with
  \<open>web-src/a/x.txt\<close> and \<open>res/a/y.txt\<close>, with the merged directory \<open>a\<close> selected, a
  resource file \<open>z.txt\<close> goes to \<open>res/a/z.txt\<close>.
\<close>

theorem C3_create_target:
  "(resourceUri el = Some p \<longrightarrow> statSync_isDirectory fs p = Inr isDir \<longrightarrow>
    root \<in> {path_join [ws, ''web-src''], path_join [ws, ''res''], path_join [ws, ''include'']} \<longrightarrow>
    startsWith p root \<longrightarrow>
    rel = path_relative (cwd fs) root (if isDir then p else path_dirname p) \<longrightarrow>
      targetDir_of fs (FFHTMLTreeDataProvider ws) (Some el) ''source''
        = Inr (Some (path_join [path_join [ws, ''web-src''], rel]))
    \<and> targetDir_of fs (FFHTMLTreeDataProvider ws) (Some el) ''resource''
        = Inr (Some (path_join [path_join [ws, ''res''], rel]))
    \<and> targetDir_of fs (FFHTMLTreeDataProvider ws) (Some el) ''include''
        = Inr (Some (path_join [path_join [ws, ''include''], rel])))
   \<and> getFilesFromFolders fs_scenario ''/ws'' [Some ''web-src'', Some ''res''] False
       = Inr [scenario_a]
   \<and> createFilePrompt fs_scenario (FFHTMLTreeDataProvider ''/ws'') (Some ''z.txt'')
        (Some scenario_a) ''resource''
       = Inr [MkdirSync ''/ws/res/a'', WriteFileSync ''/ws/res/a/z.txt'' [],
              ShowInformationMessage ''resource file created: /ws/res/a/z.txt'', Refresh]"
proof -
  have general:
    "targetDir_of fs (FFHTMLTreeDataProvider ws) (Some el) ''source''
        = Inr (Some (path_join [path_join [ws, ''web-src''], rel]))
    \<and> targetDir_of fs (FFHTMLTreeDataProvider ws) (Some el) ''resource''
        = Inr (Some (path_join [path_join [ws, ''res''], rel]))
    \<and> targetDir_of fs (FFHTMLTreeDataProvider ws) (Some el) ''include''
        = Inr (Some (path_join [path_join [ws, ''include''], rel]))"
    if u: "resourceUri el = Some p" and st: "statSync_isDirectory fs p = Inr isDir"
      and r: "root \<in> {path_join [ws, ''web-src''], path_join [ws, ''res''],
                      path_join [ws, ''include'']}"
      and sw: "startsWith p root"
      and rel: "rel = path_relative (cwd fs) root (if isDir then p else path_dirname p)"
  proof -
    define tp where "tp = FFHTMLTreeDataProvider ws"
    have r': "root \<in> {sourceDirectory tp, resourcesDirectory tp, includeDirectory tp}"
      using r by (auto simp: tp_def FFHTMLTreeDataProvider_def)
    have e: "elementTypeDir_of tp p = Some root" using tp_def r' sw by (rule elementTypeDir_unique)
    have ne: "root \<noteq> []" using tp_def r' by (rule category_root_nonempty)
    have bs: "baseDir_of tp ''source'' = Some (path_join [ws, ''web-src''])"
      by (simp add: baseDir_of_def tp_def FFHTMLTreeDataProvider_def)
    have br: "baseDir_of tp ''resource'' = Some (path_join [ws, ''res''])"
      by (simp add: baseDir_of_def tp_def FFHTMLTreeDataProvider_def)
    have bi: "baseDir_of tp ''include'' = Some (path_join [ws, ''include''])"
      by (simp add: baseDir_of_def tp_def FFHTMLTreeDataProvider_def)
    show ?thesis
      using targetDir_classified[OF u st e ne bs] targetDir_classified[OF u st e ne br]
        targetDir_classified[OF u st e ne bi]
      by (simp add: rel tp_def)
  qed
  have scenario: "createFilePrompt fs_scenario (FFHTMLTreeDataProvider ''/ws'') (Some ''z.txt'')
        (Some scenario_a) ''resource''
       = Inr [MkdirSync ''/ws/res/a'', WriteFileSync ''/ws/res/a/z.txt'' [],
              ShowInformationMessage ''resource file created: /ws/res/a/z.txt'', Refresh]"
    by code_simp
  from general scenario scenario_merge show ?thesis by blast
qed

theorem C3_create_target_witness:
  "resourceUri scenario_a = Some ''/ws/web-src/a''
   \<and> statSync_isDirectory fs_scenario ''/ws/web-src/a'' = Inr True
   \<and> startsWith ''/ws/web-src/a'' (path_join [''/ws'', ''web-src''])
   \<and> targetDir_of fs_scenario (FFHTMLTreeDataProvider ''/ws'') (Some scenario_a) ''source''
       = Inr (Some ''/ws/web-src/a'')
   \<and> targetDir_of fs_scenario (FFHTMLTreeDataProvider ''/ws'') (Some scenario_a) ''resource''
       = Inr (Some ''/ws/res/a'')
   \<and> targetDir_of fs_scenario (FFHTMLTreeDataProvider ''/ws'') (Some scenario_a) ''include''
       = Inr (Some ''/ws/include/a'')
   \<and> resourceUri (file_item ''y.txt'' ''/ws/res/a/y.txt'') = Some ''/ws/res/a/y.txt''
   \<and> statSync_isDirectory fs_scenario ''/ws/res/a/y.txt'' = Inr False
   \<and> startsWith ''/ws/res/a/y.txt'' (path_join [''/ws'', ''res''])
   \<and> targetDir_of fs_scenario (FFHTMLTreeDataProvider ''/ws'')
         (Some (file_item ''y.txt'' ''/ws/res/a/y.txt'')) ''source''
       = Inr (Some ''/ws/web-src/a'')
   \<and> targetDir_of fs_scenario (FFHTMLTreeDataProvider ''/ws'')
         (Some (file_item ''y.txt'' ''/ws/res/a/y.txt'')) ''resource''
       = Inr (Some ''/ws/res/a'')
   \<and> targetDir_of fs_scenario (FFHTMLTreeDataProvider ''/ws'')
         (Some (file_item ''y.txt'' ''/ws/res/a/y.txt'')) ''include''
       = Inr (Some ''/ws/include/a'')"
proof -
  have u: "resourceUri scenario_a = Some ''/ws/web-src/a''" by (simp add: scenario_a_def)
  have st: "statSync_isDirectory fs_scenario ''/ws/web-src/a'' = Inr True" by code_simp
  have r: "path_join [''/ws'', ''web-src'']
            \<in> {path_join [''/ws'', ''web-src''], path_join [''/ws'', ''res''],
               path_join [''/ws'', ''include'']}"
    by simp
  have sw: "startsWith ''/ws/web-src/a'' (path_join [''/ws'', ''web-src''])" by code_simp
  have u': "resourceUri (file_item ''y.txt'' ''/ws/res/a/y.txt'') = Some ''/ws/res/a/y.txt''"
    by (simp add: file_item_def)
  have st': "statSync_isDirectory fs_scenario ''/ws/res/a/y.txt'' = Inr False" by code_simp
  have r': "path_join [''/ws'', ''res'']
            \<in> {path_join [''/ws'', ''web-src''], path_join [''/ws'', ''res''],
               path_join [''/ws'', ''include'']}"
    by simp
  have sw': "startsWith ''/ws/res/a/y.txt'' (path_join [''/ws'', ''res''])" by code_simp
  have v: "path_join [path_join [''/ws'', ''web-src''],
             path_relative (cwd fs_scenario) (path_join [''/ws'', ''web-src''])
               (if True then ''/ws/web-src/a'' else path_dirname ''/ws/web-src/a'')] = ''/ws/web-src/a''"
    "path_join [path_join [''/ws'', ''res''],
             path_relative (cwd fs_scenario) (path_join [''/ws'', ''web-src''])
               (if True then ''/ws/web-src/a'' else path_dirname ''/ws/web-src/a'')] = ''/ws/res/a''"
    "path_join [path_join [''/ws'', ''include''],
             path_relative (cwd fs_scenario) (path_join [''/ws'', ''web-src''])
               (if True then ''/ws/web-src/a'' else path_dirname ''/ws/web-src/a'')] = ''/ws/include/a''"
    "path_join [path_join [''/ws'', ''web-src''],
             path_relative (cwd fs_scenario) (path_join [''/ws'', ''res''])
               (if False then ''/ws/res/a/y.txt'' else path_dirname ''/ws/res/a/y.txt'')] = ''/ws/web-src/a''"
    "path_join [path_join [''/ws'', ''res''],
             path_relative (cwd fs_scenario) (path_join [''/ws'', ''res''])
               (if False then ''/ws/res/a/y.txt'' else path_dirname ''/ws/res/a/y.txt'')] = ''/ws/res/a''"
    "path_join [path_join [''/ws'', ''include''],
             path_relative (cwd fs_scenario) (path_join [''/ws'', ''res''])
               (if False then ''/ws/res/a/y.txt'' else path_dirname ''/ws/res/a/y.txt'')] = ''/ws/include/a''"
    by code_simp+
  from C3_create_target [of scenario_a "''/ws/web-src/a''" fs_scenario True
      "path_join [''/ws'', ''web-src'']" "''/ws''"
      "path_relative (cwd fs_scenario) (path_join [''/ws'', ''web-src''])
               (if True then ''/ws/web-src/a'' else path_dirname ''/ws/web-src/a'')"]
    u st r sw
  have a: "targetDir_of fs_scenario (FFHTMLTreeDataProvider ''/ws'') (Some scenario_a) ''source''
       = Inr (Some ''/ws/web-src/a'')
   \<and> targetDir_of fs_scenario (FFHTMLTreeDataProvider ''/ws'') (Some scenario_a) ''resource''
       = Inr (Some ''/ws/res/a'')
   \<and> targetDir_of fs_scenario (FFHTMLTreeDataProvider ''/ws'') (Some scenario_a) ''include''
       = Inr (Some ''/ws/include/a'')"
    by (simp only: v)
  from C3_create_target [of "file_item ''y.txt'' ''/ws/res/a/y.txt''" "''/ws/res/a/y.txt''"
      fs_scenario False "path_join [''/ws'', ''res'']" "''/ws''"
      "path_relative (cwd fs_scenario) (path_join [''/ws'', ''res''])
               (if False then ''/ws/res/a/y.txt'' else path_dirname ''/ws/res/a/y.txt'')"]
    u' st' r' sw'
  have b: "targetDir_of fs_scenario (FFHTMLTreeDataProvider ''/ws'')
         (Some (file_item ''y.txt'' ''/ws/res/a/y.txt'')) ''source''
       = Inr (Some ''/ws/web-src/a'')
   \<and> targetDir_of fs_scenario (FFHTMLTreeDataProvider ''/ws'')
         (Some (file_item ''y.txt'' ''/ws/res/a/y.txt'')) ''resource''
       = Inr (Some ''/ws/res/a'')
   \<and> targetDir_of fs_scenario (FFHTMLTreeDataProvider ''/ws'')
         (Some (file_item ''y.txt'' ''/ws/res/a/y.txt'')) ''include''
       = Inr (Some ''/ws/include/a'')"
    by (simp only: v)
  from a b u st sw u' st' sw' show ?thesis by blast
qed

section \<open>A sibling whose name begins like a category root\<close>

text \<open>
  C10, at a sibling \<open>res-extra\<close> of the resources root \<open>res\<close>. The directory \<open>/ws/res-extra\<close> is a node of the
  tree (of a configuration whose source directory is the workspace itself); it is not
  inside \<open>/ws/res\<close>, and it is classified under \<open>/ws/res\<close>. The directory computed for
  the new file is \<open>/ws/res-extra\<close>, the node's own directory, for each of the three
  categories: no file goes into the requested category's root.
\<close>

theorem C10_counterexample:
  "(case getFilesFromFolders fs_scenario ''/ws'' [Some ''.''] False of
      Inl e \<Rightarrow> False | Inr items \<Rightarrow> sibling_node \<in> set items)
   \<and> resourceUri sibling_node = Some ''/ws/res-extra''
   \<and> \<not> inside_dir ''/'' ''/ws/res'' ''/ws/res-extra''
   \<and> elementTypeDir_of (FFHTMLTreeDataProvider ''/ws'') ''/ws/res-extra'' = Some ''/ws/res''
   \<and> targetDir_of fs_scenario (FFHTMLTreeDataProvider ''/ws'') (Some sibling_node) ''source''
       = Inr (Some ''/ws/res-extra'')
   \<and> targetDir_of fs_scenario (FFHTMLTreeDataProvider ''/ws'') (Some sibling_node) ''resource''
       = Inr (Some ''/ws/res-extra'')
   \<and> targetDir_of fs_scenario (FFHTMLTreeDataProvider ''/ws'') (Some sibling_node) ''include''
       = Inr (Some ''/ws/res-extra'')
   \<and> createFilePrompt fs_scenario (FFHTMLTreeDataProvider ''/ws'') (Some ''z.txt'')
        (Some sibling_node) ''source''
       = Inr [MkdirSync ''/ws/res-extra'', WriteFileSync ''/ws/res-extra/z.txt'' [],
              ShowInformationMessage ''source file created: /ws/res-extra/z.txt'', Refresh]"
  by code_simp

text \<open>
  C10, as the code has it. A node whose path begins, as a string, with a category root
  is classified under that root, also when its directory (the node itself, or the parent
  of a file) is not inside that root. The directory for the new file is then computed by
  the mirroring rule, and it is the node's own directory: the relative path climbs out of
  the category root, and joined to the requested root, a sibling, it arrives where it
  started.
\<close>

theorem C10_prefix_classified_sibling:
  assumes tp: "tp = FFHTMLTreeDataProvider ws"
    and r: "root \<in> {sourceDirectory tp, resourcesDirectory tp, includeDirectory tp}"
    and sw: "startsWith p root"
    and u: "resourceUri el = Some p" and st: "statSync_isDirectory fs p = Inr isDir"
    and d: "d = (if isDir then p else path_dirname p)"
    and out: "\<not> inside_dir (cwd fs) root d"
    and b: "baseDir_of tp type = Some b"
  shows "elementTypeDir_of tp p = Some root
    \<and> targetDir_of fs tp (Some el) type = Inr (Some (path_join [b, path_relative (cwd fs) root d]))
    \<and> path_resolve (cwd fs) (path_join [b, path_relative (cwd fs) root d])
        = path_resolve (cwd fs) d"
proof -
  have e: "elementTypeDir_of tp p = Some root" using tp r sw by (rule elementTypeDir_unique)
  have ne: "root \<noteq> []" using tp r by (rule category_root_nonempty)
  have t: "targetDir_of fs tp (Some el) type
           = Inr (Some (path_join [b, path_relative (cwd fs) root d]))"
    using targetDir_classified[OF u st e ne b] d by simp
  have br: "b \<in> {sourceDirectory tp, resourcesDirectory tp, includeDirectory tp}"
    using b by (rule baseDir_root)
  have bne: "b \<noteq> []" using tp br by (rule category_root_nonempty)
  obtain x where x: "resolve_segs (cwd fs) root = resolve_segs (cwd fs) ws @ [x]"
    using provider_roots[OF tp r] by blast
  obtain y where y: "resolve_segs (cwd fs) b = resolve_segs (cwd fs) ws @ [y]"
    using provider_roots[OF tp br] by blast
  have "\<not> prefix (resolve_segs (cwd fs) root) (resolve_segs (cwd fs) d)"
    using out by (simp add: inside_dir_def)
  from mirror_outside[OF x y this bne]
  have "path_resolve (cwd fs) (path_join [b, path_relative (cwd fs) root d])
        = path_resolve (cwd fs) d"
    by (simp add: path_resolve_def)
  then show ?thesis using e t by simp
qed

theorem C10_prefix_classified_sibling_witness:
  "startsWith ''/ws/res-extra'' ''/ws/res''
   \<and> resourceUri sibling_node = Some ''/ws/res-extra''
   \<and> statSync_isDirectory fs_scenario ''/ws/res-extra'' = Inr True
   \<and> \<not> inside_dir (cwd fs_scenario) ''/ws/res'' ''/ws/res-extra''
   \<and> baseDir_of (FFHTMLTreeDataProvider ''/ws'') ''source'' = Some ''/ws/web-src''
   \<and> elementTypeDir_of (FFHTMLTreeDataProvider ''/ws'') ''/ws/res-extra'' = Some ''/ws/res''
   \<and> targetDir_of fs_scenario (FFHTMLTreeDataProvider ''/ws'') (Some sibling_node) ''source''
       = Inr (Some (path_join [''/ws/web-src'', path_relative (cwd fs_scenario) ''/ws/res'' ''/ws/res-extra'']))
   \<and> path_resolve (cwd fs_scenario)
         (path_join [''/ws/web-src'', path_relative (cwd fs_scenario) ''/ws/res'' ''/ws/res-extra''])
       = path_resolve (cwd fs_scenario) ''/ws/res-extra''"
proof -
  have r: "''/ws/res'' \<in> {sourceDirectory (FFHTMLTreeDataProvider ''/ws''),
            resourcesDirectory (FFHTMLTreeDataProvider ''/ws''),
            includeDirectory (FFHTMLTreeDataProvider ''/ws'')}"
    by code_simp
  have sw: "startsWith ''/ws/res-extra'' ''/ws/res''" by code_simp
  have u: "resourceUri sibling_node = Some ''/ws/res-extra''" by (simp add: sibling_node_def)
  have st: "statSync_isDirectory fs_scenario ''/ws/res-extra'' = Inr True" by code_simp
  have d: "''/ws/res-extra'' = (if True then ''/ws/res-extra'' else path_dirname ''/ws/res-extra'')"
    by simp
  have out: "\<not> inside_dir (cwd fs_scenario) ''/ws/res'' ''/ws/res-extra''" by code_simp
  have b: "baseDir_of (FFHTMLTreeDataProvider ''/ws'') ''source'' = Some ''/ws/web-src''"
    by code_simp
  from C10_prefix_classified_sibling [OF refl r sw u st d out b] sw u st out b
  show ?thesis by simp
qed

section \<open>The category roots of file creation\<close>

lemma entries_erase: "entries (erase n) = map (map_prod id erase) (entries n)"
  by (cases n) (simp_all add: filter_map comp_def)

lemma map_of_map_prod: "map_of (map (map_prod id f) xs) k = map_option f (map_of xs k)"
  by (induction xs) auto

lemma oswalk_erase:
  "oswalk (erase n) (map erase up) segs
     = map_sum id (map_prod erase (map erase)) (oswalk n up segs)"
proof (induction segs arbitrary: n up)
  case Nil
  then show ?case by simp
next
  case (Cons s segs)
  show ?case
  proof (cases n)
    case (File t)
    then show ?thesis by simp
  next
    case (Dir es)
    then obtain es' where e: "erase n = Dir es'" by simp
    have m: "map_of (entries (erase n)) s = map_option erase (map_of (entries n) s)"
      by (simp add: entries_erase map_of_map_prod)
    show ?thesis
    proof (cases "s = [] \<or> s = ''.''")
      case True
      then show ?thesis using Dir e Cons.IH[of n up] by auto
    next
      case False
      show ?thesis
      proof (cases "s = ''..''")
        case True
        show ?thesis
        proof (cases up)
          case Nil
          then show ?thesis using Dir e True Cons.IH[of n "[]"] by simp
        next
          case (Cons a as)
          then show ?thesis using Dir e True Cons.IH[of a as] by simp
        qed
      next
        case nd: False
        show ?thesis
        proof (cases "map_of (entries n) s")
          case None
          then show ?thesis using Dir e False nd m by simp
        next
          case (Some c)
          then show ?thesis using Dir e False nd m Cons.IH[of c "n # up"] by simp
        qed
      qed
    qed
  qed
qed

lemma lookup_erase:
  "lookup \<lparr>fs_root = erase (fs_root fs), cwd = cwd fs\<rparr> p = map_sum id erase (lookup fs p)"
  using oswalk_erase[of "fs_root fs" "[]" "raw_segs (cwd fs) p"]
  by (cases "oswalk (fs_root fs) [] (raw_segs (cwd fs) p)") (auto simp: lookup_def)

lemma stat_erase:
  assumes "same_shape fs fs'"
  shows "statSync_isDirectory fs p = statSync_isDirectory fs' p"
proof -
  have "map_sum id erase (lookup fs p) = map_sum id erase (lookup fs' p)"
    using assms lookup_erase[of fs p] lookup_erase[of fs' p]
    by (simp add: same_shape_def)
  then show ?thesis
    unfolding statSync_isDirectory_def
    by (cases "lookup fs p"; cases "lookup fs' p")
       (auto split: fsnode.splits)
qed

lemma targetDir_same_shape:
  assumes "same_shape fs fs'"
  shows "targetDir_of fs tp element type = targetDir_of fs' tp element type"
proof -
  have c: "cwd fs = cwd fs'" using assms by (simp add: same_shape_def)
  show ?thesis
    unfolding targetDir_of_def by (simp only: stat_erase[OF assms] c)
qed

lemma update_erase:
  "map (map_prod id erase) (AList.update s n es)
     = AList.update s (erase n) (map (map_prod id erase) es)"
  by (induction es) auto

lemma plug_erase: "erase (plug n cs) = plug (erase n) (erase_crumbs cs)"
proof (induction cs arbitrary: n)
  case Nil
  then show ?case by (simp add: erase_crumbs_def)
next
  case (Cons c cs)
  obtain s es where c: "c = (s, es)" by (cases c)
  have "erase (plug n (c # cs)) = plug (erase (Dir (AList.update s n es))) (erase_crumbs cs)"
    using Cons.IH c by simp
  then show ?case using c by (simp add: erase_crumbs_def update_erase)
qed

lemma mkdirp_erase:
  "mkdirp (erase n) (erase_crumbs cs) segs = map_sum (\<lambda>e. e) erase (mkdirp n cs segs)"
proof (induction segs arbitrary: n cs)
  case Nil
  then show ?case by (cases n) (simp_all add: plug_erase)
next
  case (Cons s segs)
  show ?case
  proof (cases n)
    case (File t)
    then show ?thesis by simp
  next
    case (Dir es)
    then have e: "erase n = Dir (map (map_prod id erase) es)" by simp
    have m: "map_of (entries (erase n)) s = map_option erase (map_of (entries n) s)"
      by (simp add: entries_erase map_of_map_prod)
    have cr: "erase_crumbs ((s, es) # cs) = (s, map (map_prod id erase) es) # erase_crumbs cs"
      by (simp add: erase_crumbs_def)
    show ?thesis
    proof (cases "s = [] \<or> s = ''.''")
      case True
      then show ?thesis using Dir e Cons.IH[of n cs] by auto
    next
      case False
      show ?thesis
      proof (cases "s = ''..''")
        case True
        show ?thesis
        proof (cases cs)
          case Nil
          then have "erase_crumbs cs = []" by (simp add: erase_crumbs_def)
          then show ?thesis using Nil Dir e True Cons.IH[of n "[]"] by simp
        next
          case (Cons c cs')
          obtain nm pes where c: "c = (nm, pes)" by (cases c)
          have ec: "erase_crumbs cs = (nm, map (map_prod id erase) pes) # erase_crumbs cs'"
            using Cons c by (simp add: erase_crumbs_def)
          have "erase (Dir (AList.update nm n pes))
                  = Dir (AList.update nm (erase n) (map (map_prod id erase) pes))"
            by (simp add: update_erase)
          then show ?thesis
            using Cons c ec Dir e True Cons.IH[of "Dir (AList.update nm n pes)" cs'] by simp
        qed
      next
        case nd: False
        show ?thesis
        proof (cases "map_of (entries n) s")
          case None
          have "mkdirp (erase (Dir [])) (erase_crumbs ((s, es) # cs)) segs
                  = map_sum (\<lambda>e. e) erase (mkdirp (Dir []) ((s, es) # cs) segs)"
            by (rule Cons.IH)
          then show ?thesis using None Dir e False nd m cr by simp
        next
          case (Some c)
          have "mkdirp (erase c) (erase_crumbs ((s, es) # cs)) segs
                  = map_sum (\<lambda>e. e) erase (mkdirp c ((s, es) # cs) segs)"
            by (rule Cons.IH)
          then show ?thesis using Some Dir e False nd m cr by simp
        qed
      qed
    qed
  qed
qed

lemma erase_erase: "erase (erase n) = erase n"
  by (induction n) (auto simp: comp_def prod.map_comp intro!: map_idI)

lemma erase_crumbs_idem: "erase_crumbs (erase_crumbs cs) = erase_crumbs cs"
  by (induction cs) (auto simp: erase_crumbs_def erase_erase)

lemma write_at_erase:
  "map_sum (\<lambda>e. e) erase (write_at (erase n) (erase_crumbs cs) segs d')
     = map_sum (\<lambda>e. e) erase (write_at n cs segs d)"
proof (induction segs arbitrary: n cs)
  case Nil
  have "erase (plug (File d') (erase_crumbs cs)) = erase (plug (File d) cs)"
    by (simp only: plug_erase erase_crumbs_idem erase.simps)
  then show ?case by (cases n) simp_all
next
  case (Cons s segs)
  show ?case
  proof (cases n)
    case (File t)
    then show ?thesis by simp
  next
    case (Dir es)
    then have e: "erase n = Dir (map (map_prod id erase) es)" by simp
    have m: "map_of (entries (erase n)) s = map_option erase (map_of (entries n) s)"
      by (simp add: entries_erase map_of_map_prod)
    have cr: "erase_crumbs ((s, es) # cs) = (s, map (map_prod id erase) es) # erase_crumbs cs"
      by (simp add: erase_crumbs_def)
    show ?thesis
    proof (cases "s = [] \<or> s = ''.''")
      case True
      then show ?thesis using Dir e Cons.IH[of n cs] by auto
    next
      case False
      show ?thesis
      proof (cases "s = ''..''")
        case True
        show ?thesis
        proof (cases cs)
          case Nil
          then have "erase_crumbs cs = []" by (simp add: erase_crumbs_def)
          then show ?thesis using Nil Dir e True Cons.IH[of n "[]"] by simp
        next
          case (Cons c cs')
          obtain nm pes where c: "c = (nm, pes)" by (cases c)
          have ec: "erase_crumbs cs = (nm, map (map_prod id erase) pes) # erase_crumbs cs'"
            using Cons c by (simp add: erase_crumbs_def)
          have "erase (Dir (AList.update nm n pes))
                  = Dir (AList.update nm (erase n) (map (map_prod id erase) pes))"
            by (simp add: update_erase)
          then show ?thesis
            using Cons c ec Dir e True Cons.IH[of "Dir (AList.update nm n pes)" cs'] by simp
        qed
      next
        case nd: False
        show ?thesis
        proof (cases "map_of (entries n) s")
          case None
          have "erase (plug (File d') (erase_crumbs ((s, es) # cs)))
                  = erase (plug (File d) ((s, es) # cs))"
            by (simp only: plug_erase erase_crumbs_idem erase.simps)
          then show ?thesis using None Dir e False nd m cr by simp
        next
          case (Some c)
          have "map_sum (\<lambda>e. e) erase (write_at (erase c) (erase_crumbs ((s, es) # cs)) segs d')
                  = map_sum (\<lambda>e. e) erase (write_at c ((s, es) # cs) segs d)"
            by (rule Cons.IH)
          then show ?thesis using Some Dir e False nd m cr by simp
        qed
      qed
    qed
  qed
qed


lemma mkdir_same_shape:
  assumes "same_shape fs fs'"
  shows "(\<exists>e. mkdirSync_recursive fs p = Inl e \<and> mkdirSync_recursive fs' p = Inl e)
       \<or> (\<exists>a b. mkdirSync_recursive fs p = Inr a \<and> mkdirSync_recursive fs' p = Inr b
                 \<and> same_shape a b)"
proof -
  have c: "cwd fs = cwd fs'" and r: "erase (fs_root fs) = erase (fs_root fs')"
    using assms by (simp_all add: same_shape_def)
  define segs where "segs = raw_segs (cwd fs) p"
  have "map_sum (\<lambda>e. e) erase (mkdirp (fs_root fs) [] segs)
          = map_sum (\<lambda>e. e) erase (mkdirp (fs_root fs') [] segs)"
    using mkdirp_erase[of "fs_root fs" "[]" segs] mkdirp_erase[of "fs_root fs'" "[]" segs] r
    by (simp add: erase_crumbs_def)
  then show ?thesis
    unfolding mkdirSync_recursive_def c[symmetric] segs_def[symmetric]
    by (cases "mkdirp (fs_root fs) [] segs"; cases "mkdirp (fs_root fs') [] segs")
       (simp_all add: same_shape_def c)
qed

lemma write_same_shape:
  assumes "same_shape fs fs'"
  shows "(\<exists>e. writeFileSync fs p d = Inl e \<and> writeFileSync fs' p d = Inl e)
       \<or> (\<exists>a b. writeFileSync fs p d = Inr a \<and> writeFileSync fs' p d = Inr b)"
proof -
  have c: "cwd fs = cwd fs'" and r: "erase (fs_root fs) = erase (fs_root fs')"
    using assms by (simp_all add: same_shape_def)
  define segs where "segs = raw_segs (cwd fs) p"
  have "map_sum (\<lambda>e. e) erase (write_at (fs_root fs) [] segs d)
          = map_sum (\<lambda>e. e) erase (write_at (fs_root fs') [] segs d)"
    using write_at_erase[of "fs_root fs" "[]" segs d d] write_at_erase[of "fs_root fs'" "[]" segs d d] r
    by (simp add: erase_crumbs_def)
  then show ?thesis
    unfolding writeFileSync_def c[symmetric] segs_def[symmetric]
    by (cases "write_at (fs_root fs) [] segs d"; cases "write_at (fs_root fs') [] segs d")
       simp_all
qed

lemma create_same_shape:
  assumes "same_shape fs fs'"
  shows "createFilePrompt fs tp fileName element type = createFilePrompt fs' tp fileName element type"
proof -
  have t: "targetDir_of fs tp element type = targetDir_of fs' tp element type"
    using assms by (rule targetDir_same_shape)
  have step: "(case mkdirSync_recursive fs d of
                 Inl e \<Rightarrow> Inl e
               | Inr fs1 \<Rightarrow> (case writeFileSync fs1 q [] of Inl e \<Rightarrow> Inl e | Inr fs2 \<Rightarrow> Inr (xs :: effect list)))
            = (case mkdirSync_recursive fs' d of
                 Inl e \<Rightarrow> Inl e
               | Inr fs1 \<Rightarrow> (case writeFileSync fs1 q [] of Inl e \<Rightarrow> Inl e | Inr fs2 \<Rightarrow> Inr xs))"
    for d q xs
  proof -
    from mkdir_same_shape[OF assms, of d] show ?thesis
    proof (elim disjE exE conjE)
      fix e assume "mkdirSync_recursive fs d = Inl e" "mkdirSync_recursive fs' d = Inl e"
      then show ?thesis by simp
    next
      fix a b assume m: "mkdirSync_recursive fs d = Inr a" "mkdirSync_recursive fs' d = Inr b"
        and s: "same_shape a b"
      from write_same_shape[OF s, of q "[]"] show ?thesis using m by auto
    qed
  qed
  show ?thesis
    unfolding createFilePrompt_def t Let_def by (simp only: step)
qed

text \<open>
  C4, at a configuration that sets \<open>sourceDirectory\<close> to \<open>src\<close>. The tree shows the files
  of \<open>/ws/src\<close>; a source file created with no node selected goes to \<open>/ws/web-src\<close>, and
  a node of \<open>/ws/src\<close> is under no category root.
\<close>

theorem C4_counterexample:
  "getFoldersFromConfig fs_config (FFHTMLTreeDataProvider ''/ws'')
       \<lparr>json_sourceDirectory = Some ''src'', json_resourcesDirectory = None,
        json_includeDirectory = None\<rparr>
     = Inr [TreeItem ''Combined source'' Collapsed None None
              (Some [file_item ''main.txt'' ''/ws/src/main.txt'']) None None]
   \<and> createFilePrompt fs_config (FFHTMLTreeDataProvider ''/ws'') (Some ''new.txt'') None ''source''
     = Inr [MkdirSync ''/ws/web-src'', WriteFileSync ''/ws/web-src/new.txt'' [],
            ShowInformationMessage ''source file created: /ws/web-src/new.txt'', Refresh]
   \<and> elementTypeDir_of (FFHTMLTreeDataProvider ''/ws'') ''/ws/src/main.txt'' = None"
  by code_simp

text \<open>
  C4, as the code has it. The category roots of file creation are the directories
  \<open>web-src\<close>, \<open>res\<close> and \<open>include\<close> of the workspace root, as the base directory of the
  new file and as the roots a selected node's path is matched against; and what a create
  command does is the same on two disks that differ only in the texts of their files, so
  no configuration file has a say in it.
\<close>

theorem C4_category_roots_are_defaults:
  "baseDir_of (FFHTMLTreeDataProvider ws) ''source'' = Some (path_join [ws, ''web-src''])
   \<and> baseDir_of (FFHTMLTreeDataProvider ws) ''resource'' = Some (path_join [ws, ''res''])
   \<and> baseDir_of (FFHTMLTreeDataProvider ws) ''include'' = Some (path_join [ws, ''include''])
   \<and> elementTypeDir_of (FFHTMLTreeDataProvider ws) p
       \<in> {None, Some (path_join [ws, ''web-src'']), Some (path_join [ws, ''res'']),
          Some (path_join [ws, ''include''])}
   \<and> (same_shape fs fs' \<longrightarrow>
        createFilePrompt fs (FFHTMLTreeDataProvider ws) fileName element type
          = createFilePrompt fs' (FFHTMLTreeDataProvider ws) fileName element type)"
proof (intro conjI impI)
  show "baseDir_of (FFHTMLTreeDataProvider ws) ''source'' = Some (path_join [ws, ''web-src''])"
    by (simp add: baseDir_of_def FFHTMLTreeDataProvider_def)
  show "baseDir_of (FFHTMLTreeDataProvider ws) ''resource'' = Some (path_join [ws, ''res''])"
    by (simp add: baseDir_of_def FFHTMLTreeDataProvider_def)
  show "baseDir_of (FFHTMLTreeDataProvider ws) ''include'' = Some (path_join [ws, ''include''])"
    by (simp add: baseDir_of_def FFHTMLTreeDataProvider_def)
  show "elementTypeDir_of (FFHTMLTreeDataProvider ws) p
       \<in> {None, Some (path_join [ws, ''web-src'']), Some (path_join [ws, ''res'']),
          Some (path_join [ws, ''include''])}"
    by (simp add: elementTypeDir_of_def FFHTMLTreeDataProvider_def)
next
  assume "same_shape fs fs'"
  then show "createFilePrompt fs (FFHTMLTreeDataProvider ws) fileName element type
          = createFilePrompt fs' (FFHTMLTreeDataProvider ws) fileName element type"
    by (rule create_same_shape)
qed

theorem C4_category_roots_are_defaults_witness:
  "same_shape fs_config fs_config'
   \<and> baseDir_of (FFHTMLTreeDataProvider ''/ws'') ''source'' = Some ''/ws/web-src''
   \<and> createFilePrompt fs_config (FFHTMLTreeDataProvider ''/ws'') (Some ''new.txt'') None ''source''
       = createFilePrompt fs_config' (FFHTMLTreeDataProvider ''/ws'') (Some ''new.txt'') None ''source''"
proof -
  have s: "same_shape fs_config fs_config'" by code_simp
  have j: "path_join [''/ws'', ''web-src''] = ''/ws/web-src''" by code_simp
  from C4_category_roots_are_defaults [of "''/ws''" "[]" fs_config fs_config' "Some ''new.txt''" None "''source''"] s j
  show ?thesis by simp
qed

section \<open>The children of the root\<close>

lemma findFCCWFiles_nonempty:
  "findFCCWFiles fs dir = Inr files \<Longrightarrow> f \<in> set files \<Longrightarrow> f \<noteq> []"
proof (induction fs dir arbitrary: files f rule: findFCCWFiles.induct)
  case (1 fs dir)
  let ?g = "\<lambda>item. let fullPath = path_join [dir, fst item]
                   in if \<not> snd item \<and> endsWith (fst item) ''.fccw'' then Inr [fullPath]
                      else if snd item then findFCCWFiles fs fullPath
                      else Inr []"
  from "1.prems"(1) obtain items found
    where rd: "readdirSync_withFileTypes fs dir = Inr items"
      and c: "collect (map ?g items) = Inr found" and files: "files = concat found"
    by (subst (asm) findFCCWFiles.simps) (auto split: sum.splits)
  have l: "list_all2 (\<lambda>x y. ?g x = Inr y) items found" using c by (rule collect_map)
  from "1.prems"(2) files obtain ys where ys: "ys \<in> set found" and f: "f \<in> set ys" by auto
  then obtain n where n: "n < length found" and yn: "found ! n = ys"
    by (auto simp: in_set_conv_nth)
  have len: "length items = length found" using l by (rule list_all2_lengthD)
  have g: "?g (items ! n) = Inr ys" using list_all2_nthD2[OF l n] yn by simp
  have mem: "items ! n \<in> set items" using n len by simp
  show ?case
  proof (cases "\<not> snd (items ! n) \<and> endsWith (fst (items ! n)) ''.fccw''")
    case True
    then have "ys = [path_join [dir, fst (items ! n)]]" using g by (simp add: Let_def)
    then show ?thesis using f by (simp add: path_join_nonempty)
  next
    case False
    show ?thesis
    proof (cases "snd (items ! n)")
      case d: True
      then have "findFCCWFiles fs (path_join [dir, fst (items ! n)]) = Inr ys"
        using g False by (simp add: Let_def)
      from "1.IH"[OF rd mem refl False d this f] show ?thesis .
    next
      case d: False
      then have "ys = []" using g False by (simp add: Let_def)
      then show ?thesis using f by simp
    qed
  qed
qed

text \<open>
  C6. What the root of the tree shows, by the number of configuration files found under
  the workspace root: none, one leaf that says so, with no command, no path and nothing
  to expand; one, the sections of that configuration; two or more, one collapsed node for
  each file, labelled with the file's name, its children not computed, which gives the
  sections of its own configuration when its children are asked for.
\<close>

theorem C6_root_children:
  assumes ws: "workspaceRoot this \<noteq> []"
    and found: "findFCCWFiles fs (workspaceRoot this) = Inr files"
  shows "(files = [] \<longrightarrow>
            getChildren JSON_parse fs this None =
              Inr [TreeItem ''No .fccw workspace found'' CollapsibleNone None None None None None])
    \<and> (\<forall>f. files = [f] \<longrightarrow>
            getChildren JSON_parse fs this None = config_sections JSON_parse fs this f)
    \<and> (2 \<le> length files \<longrightarrow>
            getChildren JSON_parse fs this None = Inr (map config_node files)
          \<and> (\<forall>f\<in>set files.
                label (config_node f) = path_basename f
              \<and> collapsibleState (config_node f) = Collapsed
              \<and> children (config_node f) = None
              \<and> getChildren JSON_parse fs this (Some (config_node f))
                  = config_sections JSON_parse fs this f))"
proof (intro conjI allI impI ballI)
  assume "files = []"
  then show "getChildren JSON_parse fs this None =
              Inr [TreeItem ''No .fccw workspace found'' CollapsibleNone None None None None None]"
    using ws found by (simp add: getChildren_def new_TreeItem_def)
next
  fix f assume "files = [f]"
  then show "getChildren JSON_parse fs this None = config_sections JSON_parse fs this f"
    using ws found by (simp add: getChildren_def)
next
  assume "2 \<le> length files"
  then have "length files \<noteq> 0" "length files \<noteq> 1" by auto
  then show "getChildren JSON_parse fs this None = Inr (map config_node files)"
    using ws found by (simp add: getChildren_def config_node_def new_TreeItem_def)
next
  fix f assume "f \<in> set files"
  show "label (config_node f) = path_basename f" by (simp add: config_node_def)
  show "collapsibleState (config_node f) = Collapsed" by (simp add: config_node_def)
  show "children (config_node f) = None" by (simp add: config_node_def)
  have "f \<noteq> []" using found \<open>f \<in> set files\<close> by (rule findFCCWFiles_nonempty)
  then show "getChildren JSON_parse fs this (Some (config_node f))
                  = config_sections JSON_parse fs this f"
    using ws by (simp add: getChildren_def config_node_def truthy_def)
qed

theorem C6_root_children_witness:
  "workspaceRoot (FFHTMLTreeDataProvider ''/ws'') \<noteq> []
   \<and> findFCCWFiles fs_empty ''/ws'' = Inr []
   \<and> getChildren parse_example fs_empty (FFHTMLTreeDataProvider ''/ws'') None
       = Inr [TreeItem ''No .fccw workspace found'' CollapsibleNone None None None None None]
   \<and> findFCCWFiles fs_scenario ''/ws'' = Inr [''/ws/proj.fccw'']
   \<and> getChildren parse_example fs_scenario (FFHTMLTreeDataProvider ''/ws'') None
       = config_sections parse_example fs_scenario (FFHTMLTreeDataProvider ''/ws'') ''/ws/proj.fccw''
   \<and> config_sections parse_example fs_scenario (FFHTMLTreeDataProvider ''/ws'') ''/ws/proj.fccw''
       = Inr [TreeItem ''Combined source'' Collapsed None None (Some [scenario_a]) None None,
              TreeItem ''Includes'' Collapsed None None (Some []) None None]
   \<and> findFCCWFiles fs_two ''/ws'' = Inr [''/ws/a.fccw'', ''/ws/sub/b.fccw'']
   \<and> getChildren parse_example fs_two (FFHTMLTreeDataProvider ''/ws'') None
       = Inr [config_node ''/ws/a.fccw'', config_node ''/ws/sub/b.fccw'']
   \<and> label (config_node ''/ws/sub/b.fccw'') = ''b.fccw''
   \<and> getChildren parse_example fs_two (FFHTMLTreeDataProvider ''/ws'')
         (Some (config_node ''/ws/sub/b.fccw''))
       = config_sections parse_example fs_two (FFHTMLTreeDataProvider ''/ws'') ''/ws/sub/b.fccw''
   \<and> config_sections parse_example fs_two (FFHTMLTreeDataProvider ''/ws'') ''/ws/sub/b.fccw''
       = Inr [TreeItem ''Includes'' Collapsed None None (Some []) None None]"
proof -
  have w: "workspaceRoot (FFHTMLTreeDataProvider ''/ws'') = ''/ws''"
    by (simp add: FFHTMLTreeDataProvider_def)
  have f0: "findFCCWFiles fs_empty (workspaceRoot (FFHTMLTreeDataProvider ''/ws'')) = Inr []"
    unfolding w by code_simp
  have f1: "findFCCWFiles fs_scenario (workspaceRoot (FFHTMLTreeDataProvider ''/ws''))
             = Inr [''/ws/proj.fccw'']"
    unfolding w by code_simp
  have f2: "findFCCWFiles fs_two (workspaceRoot (FFHTMLTreeDataProvider ''/ws''))
             = Inr [''/ws/a.fccw'', ''/ws/sub/b.fccw'']"
    unfolding w by code_simp
  have n: "workspaceRoot (FFHTMLTreeDataProvider ''/ws'') \<noteq> []" by (simp add: w)
  have b: "path_basename ''/ws/sub/b.fccw'' = ''b.fccw''" by code_simp
  have s: "config_sections parse_example fs_two (FFHTMLTreeDataProvider ''/ws'') ''/ws/sub/b.fccw''
       = Inr [TreeItem ''Includes'' Collapsed None None (Some []) None None]"
    by code_simp
  have s1: "config_sections parse_example fs_scenario (FFHTMLTreeDataProvider ''/ws'') ''/ws/proj.fccw''
       = Inr [TreeItem ''Combined source'' Collapsed None None (Some [scenario_a]) None None,
              TreeItem ''Includes'' Collapsed None None (Some []) None None]"
    by code_simp
  from C6_root_children [OF n f0, of parse_example] C6_root_children [OF n f1, of parse_example]
    C6_root_children [OF n f2, of parse_example] f0 f1 f2 n b s s1
  show ?thesis by (simp add: w)
qed

end
